theory Spec2Isabelle
  imports Main
begin

section \<open>The page: DOM state, timers and suspended submissions\<close>

text \<open>
  The repository is one script, \<open>src/script.js\<close>, holding two variants of the same page
  script (lines 1-266 and lines 267-496). Functions of the first variant carry the
  suffix \<open>_v1\<close>, those of the second \<open>_v2\<close>. Every handler is a function from the page
  to the page; a handler that can dereference \<open>null\<close> returns a sum whose left side is
  the error together with the page as the handler left it.

  The page records what the handlers read and write. Which elements exist is fixed
  (\<open>present\<close>, and for \<open>#program\<close> whether the form has a control with that id);
  positions are whole pixels; \<open>btn_label\<close> is the text of the submit button; \<open>overlays\<close> are
  the success overlays inside the form; \<open>clock\<close> is the time in milliseconds and
  \<open>fresh\<close> the next unused handle. \<open>e.preventDefault()\<close> has no effect on this state and
  is not modelled.
\<close>

datatype error = TypeError | SyntaxError

text \<open>The elements the script looks up by a fixed id, class or selector.\<close>

datatype node =
    ProgramSelect      \<comment> \<open>\<open>document.getElementById('program')\<close>, for its class list\<close>
  | ContactSection     \<comment> \<open>\<open>document.getElementById('contact')\<close>\<close>
  | MainHeader         \<comment> \<open>\<open>document.querySelector('#main-header')\<close>\<close>
  | ContactFormClass   \<comment> \<open>\<open>document.querySelector('.contact-form')\<close>\<close>
  | ContactForm        \<comment> \<open>\<open>document.getElementById('contact-form')\<close>\<close>
  | SubmitBtn          \<comment> \<open>\<open>contactForm.querySelector('button[type="submit"]')\<close>\<close>
  | MainNav            \<comment> \<open>\<open>document.querySelector('#main-nav')\<close>\<close>
  | MenuToggle         \<comment> \<open>\<open>document.getElementById('menu-toggle')\<close>\<close>

text \<open>The callbacks the script hands to \<open>setTimeout\<close>.\<close>

datatype callback =
    Abort nat                 \<comment> \<open>\<open>() => controller.abort()\<close>, for the request with this id\<close>
  | RestoreBtn string         \<comment> \<open>label back to \<open>originalText\<close>, \<open>disabled = false\<close>\<close>
  | OverlayActive nat         \<comment> \<open>\<open>classList.add('active')\<close> on the overlay with this id\<close>
  | ClassRemove node string   \<comment> \<open>\<open>classList.remove(c)\<close> on a looked-up element\<close>
  | RevealActive nat          \<comment> \<open>\<open>entry.target.classList.add('active')\<close> on a reveal element\<close>

record timer =
  tid :: nat
  due :: nat
  cb :: callback

datatype stage = AwaitFetch | AwaitJson

text \<open>A submit handler suspended at an \<open>await\<close>, with the constants it closed over.\<close>

record request =
  rid :: nat
  original_text :: string
  timeout_id :: "nat option"
  stage :: stage
  url :: string
  payload :: "(string \<times> string) list"

text \<open>A control of the contact form: its \<open>id\<close> and \<open>name\<close> attributes (empty when it has
  none), the values of its options when it is a \<open><select>\<close> (\<open>None\<close> for a text control),
  and its state on load and now. The state of a text control is its text; the state of
  a select is the value of the selected option, \<open>None\<close> when no option is selected.\<close>

record field =
  fid :: string
  fname :: string
  foptions :: "string list option"
  finit :: "string option"
  fstate :: "string option"

record overlay =
  oid :: nat
  oclasses :: "string list"

record card =
  card_value :: "string option"
  card_cursor :: string

record item =
  item_value :: "string option"
  item_classes :: "string list"

datatype listener =
    OnCardClick | OnItemClick | OnAnchorClick | OnToggleClick | OnSubmit

record page =
  present :: "node \<Rightarrow> bool"
  class_list :: "node \<Rightarrow> string list"
  listeners :: "listener list"
  cards :: "card list"
  items :: "item list"
  contact_top :: int
  target_top :: "string \<Rightarrow> int option"
  bad_selector :: "string \<Rightarrow> bool"
  scroll_y :: int
  header_height :: int
  scrolled_to :: "int option"
  aria_expanded :: "string option"
  body_overflow :: string
  btn_label :: string
  btn_disabled :: bool
  btn_opacity :: string
  form_fields :: "field list"
  form_action :: string
  form_position :: string
  overlays :: "overlay list"
  reveals :: "string list list"
  observed :: "nat list"
  reveal_log :: "nat list"
  clock :: nat
  fresh :: nat
  timers :: "timer list"
  requests :: "request list"
  console :: "(string \<times> string) list"

subsection \<open>Class lists\<close>

text \<open>A \<open>classList\<close> is an ordered set of tokens: adding a token twice changes nothing.\<close>

definition cl_add :: "string \<Rightarrow> string list \<Rightarrow> string list" where
  "cl_add c xs = (if c \<in> set xs then xs else xs @ [c])"

definition cl_remove :: "string \<Rightarrow> string list \<Rightarrow> string list" where
  "cl_remove c xs = filter (\<lambda>x. x \<noteq> c) xs"

definition cl_contains :: "string \<Rightarrow> string list \<Rightarrow> bool" where
  "cl_contains c xs = (c \<in> set xs)"

text \<open>\<open>classList.toggle(c, force)\<close> and \<open>classList.toggle(c)\<close>; the latter also returns
  whether the token is present afterwards.\<close>

definition cl_force :: "string \<Rightarrow> bool \<Rightarrow> string list \<Rightarrow> string list" where
  "cl_force c b xs = (if b then cl_add c xs else cl_remove c xs)"

definition cl_toggle :: "string \<Rightarrow> string list \<Rightarrow> string list \<times> bool" where
  "cl_toggle c xs = (if c \<in> set xs then (cl_remove c xs, False) else (cl_add c xs, True))"

subsection \<open>Timers\<close>

text \<open>\<open>setTimeout\<close> returns a fresh handle and queues the callback at \<open>now + ms\<close>;
  \<open>clearTimeout\<close> drops the timer with that handle (and ignores \<open>undefined\<close>).\<close>

definition setTimeout :: "callback \<Rightarrow> nat \<Rightarrow> page \<Rightarrow> nat \<times> page" where
  "setTimeout f ms p =
     (fresh p,
      p\<lparr>fresh := Suc (fresh p),
        timers := timers p @ [\<lparr>tid = fresh p, due = clock p + ms, cb = f\<rparr>]\<rparr>)"

definition clearTimeout :: "nat option \<Rightarrow> page \<Rightarrow> page" where
  "clearTimeout h p =
     (case h of None \<Rightarrow> p
      | Some k \<Rightarrow> p\<lparr>timers := filter (\<lambda>t. tid t \<noteq> k) (timers p)\<rparr>)"

section \<open>The contact form\<close>

text \<open>Reading and assigning the \<open>value\<close> of a control. A select with no selected
  option reads as the empty string; assigning a select a value that none of its
  options has leaves it with no option selected.\<close>

definition value_of :: "field \<Rightarrow> string" where
  "value_of f = (case fstate f of None \<Rightarrow> [] | Some v \<Rightarrow> v)"

definition assign :: "string \<Rightarrow> field \<Rightarrow> field" where
  "assign v f =
     (case foptions f of
        None \<Rightarrow> f\<lparr>fstate := Some v\<rparr>
      | Some opts \<Rightarrow> f\<lparr>fstate := (if v \<in> set opts then Some v else None)\<rparr>)"

text \<open>\<open>document.getElementById('program')\<close> is the first control with that id; the
  handlers read it (\<open>program_value\<close>) and assign it (\<open>set_program\<close>).\<close>

definition programSelect :: "page \<Rightarrow> field option" where
  "programSelect p = find (\<lambda>f. fid f = ''program'') (form_fields p)"

definition program_value :: "page \<Rightarrow> string" where
  "program_value p = (case programSelect p of None \<Rightarrow> [] | Some f \<Rightarrow> value_of f)"

fun assign_first :: "string \<Rightarrow> string \<Rightarrow> field list \<Rightarrow> field list" where
  "assign_first i v [] = []"
| "assign_first i v (f # fs) =
     (if fid f = i then assign v f # fs else f # assign_first i v fs)"

definition set_program :: "string \<Rightarrow> page \<Rightarrow> page" where
  "set_program v p = p\<lparr>form_fields := assign_first ''program'' v (form_fields p)\<rparr>"

text \<open>\<open>new FormData(contactForm)\<close> lists the controls that have a name and a state, with
  their values, in document order. \<open>contactForm.reset()\<close> gives every control the state
  it had when the page was loaded.\<close>

definition form_data :: "page \<Rightarrow> (string \<times> string) list" where
  "form_data p =
     map (\<lambda>f. (fname f, value_of f))
       (filter (\<lambda>f. fname f \<noteq> [] \<and> fstate f \<noteq> None) (form_fields p))"

definition form_reset :: "page \<Rightarrow> page" where
  "form_reset p = p\<lparr>form_fields := map (\<lambda>f. f\<lparr>fstate := finit f\<rparr>) (form_fields p)\<rparr>"

text \<open>\<open>showSuccessMessage\<close> (lines 246-266 and 483-496): a new overlay element is appended
  to the form; its \<open>active\<close> class is added by a timer 10 ms later.\<close>

definition showSuccessMessage_v1 :: "page \<Rightarrow> page" where
  "showSuccessMessage_v1 p =
     (let k = fresh p;
          p1 = p\<lparr>fresh := Suc k\<rparr>;
          p2 = p1\<lparr>form_position := ''relative''\<rparr>;
          p3 = p2\<lparr>overlays := overlays p2 @ [\<lparr>oid = k, oclasses = [''form-success-overlay'']\<rparr>]\<rparr>
      in snd (setTimeout (OverlayActive k) 10 p3))"

definition showSuccessMessage_v2 :: "page \<Rightarrow> page" where
  "showSuccessMessage_v2 p =
     (let k = fresh p;
          p1 = p\<lparr>fresh := Suc k\<rparr>;
          p2 = p1\<lparr>overlays := overlays p1 @ [\<lparr>oid = k, oclasses = [''form-success-overlay'']\<rparr>]\<rparr>
      in snd (setTimeout (OverlayActive k) 10 p2))"

text \<open>The overlay's Close button: \<open>this.closest('.form-success-overlay').remove()\<close>, in the
  second variant followed by \<open>document.body.style.overflow = ''\<close>. The button exists only
  while its overlay is in the form.\<close>

definition close_overlay_v1 :: "nat \<Rightarrow> page \<Rightarrow> page" where
  "close_overlay_v1 k p =
     (if k \<in> oid ` set (overlays p)
      then p\<lparr>overlays := filter (\<lambda>v. oid v \<noteq> k) (overlays p)\<rparr>
      else p)"

definition close_overlay_v2 :: "nat \<Rightarrow> page \<Rightarrow> page" where
  "close_overlay_v2 k p =
     (if k \<in> oid ` set (overlays p)
      then p\<lparr>overlays := filter (\<lambda>v. oid v \<noteq> k) (overlays p), body_overflow := []\<rparr>
      else p)"

subsection \<open>First variant (lines 176-241)\<close>

definition initContactForm_v1 :: "page \<Rightarrow> page" where
  "initContactForm_v1 p =
     (if \<not> present p ContactForm then p else p\<lparr>listeners := listeners p @ [OnSubmit]\<rparr>)"

text \<open>The submit handler up to its first \<open>await\<close>: lines 181-206.\<close>

definition submit_v1 :: "page \<Rightarrow> page" where
  "submit_v1 p =
     (if \<not> present p SubmitBtn then p
      else
        let originalText = btn_label p;
            formData = form_data p;
            p1 = p\<lparr>btn_label := ''Initializing Protocol...''\<rparr>;
            p2 = p1\<lparr>btn_disabled := True\<rparr>;
            p3 = p2\<lparr>btn_opacity := ''0.7''\<rparr>;
            controller = fresh p3;
            p4 = p3\<lparr>fresh := Suc controller\<rparr>;
            (timeoutId, p5) = setTimeout (Abort controller) 10000 p4
        in p5\<lparr>requests := requests p5 @
               [\<lparr>rid = controller, original_text = originalText, timeout_id = Some timeoutId,
                 stage = AwaitFetch, url = form_action p, payload = formData\<rparr>]\<rparr>)"

text \<open>The \<open>catch\<close> block, lines 223-239. An error is its \<open>name\<close> and its \<open>message\<close>.\<close>

definition catch_v1 :: "string \<times> string \<Rightarrow> request \<Rightarrow> page \<Rightarrow> page" where
  "catch_v1 err r p =
     (let p1 = clearTimeout (timeout_id r) p;
          p2 = p1\<lparr>console := console p1 @ [err]\<rparr>;
          p3 = p2\<lparr>btn_label := (if fst err = ''AbortError'' then ''Timeout - Try Again''
                                else ''Error - Try Again'')\<rparr>;
          p4 = p3\<lparr>btn_opacity := ''1''\<rparr>
      in snd (setTimeout (RestoreBtn (original_text r)) 3000 p4))"

text \<open>How the environment settles the \<open>fetch\<close> promise (a response with its \<open>ok\<close> flag, or
  a rejection with an error) and the \<open>response.json()\<close> promise (a JSON value, of which
  only the \<open>error\<close> member is read, or unparseable text).\<close>

datatype settle = Fulfilled bool | Rejected "string \<times> string"

datatype body = JsonObject "string option" | JsonNull | NotJson

text \<open>The handler resumed after \<open>await fetch(...)\<close>: lines 208-222.\<close>

definition fetch_settled_v1 :: "nat \<Rightarrow> settle \<Rightarrow> page \<Rightarrow> page" where
  "fetch_settled_v1 i s p =
     (case find (\<lambda>r. rid r = i \<and> stage r = AwaitFetch) (requests p) of
        None \<Rightarrow> p
      | Some r \<Rightarrow>
          (let p0 = p\<lparr>requests := remove1 r (requests p)\<rparr> in
           case s of
             Rejected err \<Rightarrow> catch_v1 err r p0
           | Fulfilled ok \<Rightarrow>
               (let p1 = clearTimeout (timeout_id r) p0 in
                if ok then
                  (let p2 = showSuccessMessage_v1 p1;
                       p3 = form_reset p2;
                       p4 = p3\<lparr>btn_label := original_text r\<rparr>;
                       p5 = p4\<lparr>btn_disabled := False\<rparr>
                   in p5\<lparr>btn_opacity := ''1''\<rparr>)
                else p1\<lparr>requests := requests p1 @ [r\<lparr>stage := AwaitJson\<rparr>]\<rparr>)))"

text \<open>The handler resumed after \<open>await response.json()\<close>: lines 220-221. Reading \<open>error\<close>
  of \<open>null\<close> and a body that is not JSON both throw into the same \<open>catch\<close>.\<close>

definition json_settled_v1 :: "nat \<Rightarrow> body \<Rightarrow> page \<Rightarrow> page" where
  "json_settled_v1 i b p =
     (case find (\<lambda>r. rid r = i \<and> stage r = AwaitJson) (requests p) of
        None \<Rightarrow> p
      | Some r \<Rightarrow>
          (let p0 = p\<lparr>requests := remove1 r (requests p)\<rparr> in
           case b of
             JsonObject e \<Rightarrow>
               catch_v1 (''Error'',
                  (case e of None \<Rightarrow> ''Form submission failed''
                   | Some m \<Rightarrow> if m = [] then ''Form submission failed'' else m)) r p0
           | JsonNull \<Rightarrow> catch_v1 (''TypeError'', []) r p0
           | NotJson \<Rightarrow> catch_v1 (''SyntaxError'', []) r p0))"

subsection \<open>Second variant (lines 445-481)\<close>

definition initContactForm_v2 :: "page \<Rightarrow> page" where
  "initContactForm_v2 p =
     (if \<not> present p ContactForm then p else p\<lparr>listeners := listeners p @ [OnSubmit]\<rparr>)"

text \<open>Lines 450-465. \<open>btn_label\<close> is the text of \<open>btnText\<close>, the \<open>.btn-text\<close> child if there
  is one and the button otherwise; \<open>submitBtn.querySelector\<close> on \<open>null\<close> throws.\<close>

definition submit_v2 :: "page \<Rightarrow> (error \<times> page) + page" where
  "submit_v2 p =
     (if \<not> present p SubmitBtn then Inl (TypeError, p)
      else
        let originalText = btn_label p;
            formData = form_data p;
            p1 = p\<lparr>btn_label := ''Sending...''\<rparr>;
            p2 = p1\<lparr>btn_disabled := True\<rparr>;
            r = fresh p2
        in Inr (p2\<lparr>fresh := Suc r,
                   requests := requests p2 @
                     [\<lparr>rid = r, original_text = originalText, timeout_id = None,
                       stage = AwaitFetch, url = form_action p, payload = formData\<rparr>]\<rparr>))"

text \<open>Lines 473-479.\<close>

definition catch_v2 :: "request \<Rightarrow> page \<Rightarrow> page" where
  "catch_v2 r p =
     (let p1 = p\<lparr>btn_label := ''Error - Try Again''\<rparr>
      in snd (setTimeout (RestoreBtn (original_text r)) 3000 p1))"

text \<open>Lines 467-472.\<close>

definition fetch_settled_v2 :: "nat \<Rightarrow> settle \<Rightarrow> page \<Rightarrow> page" where
  "fetch_settled_v2 i s p =
     (case find (\<lambda>r. rid r = i \<and> stage r = AwaitFetch) (requests p) of
        None \<Rightarrow> p
      | Some r \<Rightarrow>
          (let p0 = p\<lparr>requests := remove1 r (requests p)\<rparr> in
           case s of
             Rejected err \<Rightarrow> catch_v2 r p0
           | Fulfilled ok \<Rightarrow>
               if ok then form_reset (showSuccessMessage_v2 p0)
               else catch_v2 r p0))"

section \<open>The event loop\<close>

text \<open>Running a timer callback. \<open>controller.abort()\<close> rejects the pending promise of its
  request with an \<open>AbortError\<close>, which resumes the handler in its \<open>catch\<close> block; a
  request that has settled is no longer there and the abort does nothing.\<close>

fun run_callback :: "callback \<Rightarrow> page \<Rightarrow> page" where
  "run_callback (Abort i) p =
     (case find (\<lambda>r. rid r = i) (requests p) of
        None \<Rightarrow> p
      | Some r \<Rightarrow> catch_v1 (''AbortError'', []) r (p\<lparr>requests := remove1 r (requests p)\<rparr>))"
| "run_callback (RestoreBtn t) p = p\<lparr>btn_label := t, btn_disabled := False\<rparr>"
| "run_callback (OverlayActive k) p =
     p\<lparr>overlays := map (\<lambda>v. if oid v = k then v\<lparr>oclasses := cl_add ''active'' (oclasses v)\<rparr> else v)
                       (overlays p)\<rparr>"
| "run_callback (ClassRemove n c) p =
     p\<lparr>class_list := (class_list p)(n := cl_remove c (class_list p n))\<rparr>"
| "run_callback (RevealActive i) p =
     (if i < length (reveals p)
      then p\<lparr>reveals := (reveals p)[i := cl_add ''active'' (reveals p ! i)],
             reveal_log := reveal_log p @ [i]\<rparr>
      else p)"

text \<open>The timer that fires next: the least due time, the older timer on a tie.\<close>

fun earliest :: "timer list \<Rightarrow> timer option" where
  "earliest [] = None"
| "earliest (t # ts) =
     (case earliest ts of
        None \<Rightarrow> Some t
      | Some u \<Rightarrow> if due u < due t then Some u else Some t)"

definition fire :: "timer \<Rightarrow> page \<Rightarrow> page" where
  "fire tm p =
     run_callback (cb tm) (p\<lparr>clock := max (clock p) (due tm), timers := remove1 tm (timers p)\<rparr>)"

fun weight :: "callback \<Rightarrow> nat" where
  "weight (Abort i) = 2"
| "weight c = 1"

definition load :: "page \<Rightarrow> nat" where
  "load p = sum_list (map (\<lambda>t. weight (cb t)) (timers p))"

section \<open>Protocol selection\<close>

subsection \<open>First variant (lines 20-58)\<close>

definition initProtocolSelection_v1 :: "page \<Rightarrow> page" where
  "initProtocolSelection_v1 p =
     (if cards p = [] \<or> programSelect p = None then p
      else p\<lparr>cards := map (\<lambda>c. c\<lparr>card_cursor := ''pointer''\<rparr>) (cards p),
             listeners := listeners p @ [OnCardClick]\<rparr>)"

text \<open>The click handler of one card, lines 31-56. \<open>contactSection\<close> and \<open>form\<close> are
  dereferenced without a check.\<close>

definition card_click_v1 :: "card \<Rightarrow> page \<Rightarrow> (error \<times> page) + page" where
  "card_click_v1 c p =
     (case card_value c of
        None \<Rightarrow> Inr p
      | Some protocolValue \<Rightarrow>
          if protocolValue = [] then Inr p
          else
            let p1 = set_program protocolValue p in
            if \<not> present p1 ContactSection then Inl (TypeError, p1)
            else
              let headerOffset = 90;
                  elementPosition = contact_top p1;
                  offsetPosition = elementPosition + scroll_y p1 - headerOffset;
                  p2 = p1\<lparr>scrolled_to := Some offsetPosition\<rparr>
              in
              if \<not> present p2 ContactFormClass then Inl (TypeError, p2)
              else
                let p3 = p2\<lparr>class_list := (class_list p2)
                            (ContactFormClass :=
                               cl_add ''selection-highlight'' (class_list p2 ContactFormClass))\<rparr>;
                    p4 = snd (setTimeout (ClassRemove ContactFormClass ''selection-highlight'') 1500 p3);
                    p5 = p4\<lparr>class_list := (class_list p4)
                            (ProgramSelect :=
                               cl_add ''field-highlight'' (class_list p4 ProgramSelect))\<rparr>
                in Inr (snd (setTimeout (ClassRemove ProgramSelect ''field-highlight'') 1500 p5)))"

subsection \<open>Second variant (lines 302-350)\<close>

definition initProtocolSelection_v2 :: "page \<Rightarrow> page" where
  "initProtocolSelection_v2 p =
     (if programSelect p = None then p
      else p\<lparr>cards := map (\<lambda>c. c\<lparr>card_cursor := ''pointer''\<rparr>) (cards p),
             listeners := listeners p @ [OnCardClick, OnItemClick]\<rparr>)"

text \<open>\<open>updateProtocolSelection(value, shouldScroll)\<close>, lines 325-346. The header is
  dereferenced without a check; \<open>offsetHeight || 80\<close> replaces a height of 0 by 80.\<close>

definition updateProtocolSelection :: "string \<Rightarrow> bool \<Rightarrow> page \<Rightarrow> (error \<times> page) + page" where
  "updateProtocolSelection v shouldScroll p =
     (let p1 = set_program v p;
          p2 = p1\<lparr>items := map (\<lambda>it. it\<lparr>item_classes :=
                        cl_force ''active'' (item_value it = Some v) (item_classes it)\<rparr>) (items p1)\<rparr>
      in
      if shouldScroll \<and> present p2 ContactSection then
        if \<not> present p2 MainHeader then Inl (TypeError, p2)
        else
          let headerHeight = (if header_height p2 = 0 then 80 else header_height p2);
              elementPosition = contact_top p2 + scroll_y p2;
              p3 = p2\<lparr>scrolled_to := Some (elementPosition - headerHeight)\<rparr>
          in
          if present p3 ContactFormClass then
            let p4 = p3\<lparr>class_list := (class_list p3)
                        (ContactFormClass :=
                           cl_add ''selection-highlight'' (class_list p3 ContactFormClass))\<rparr>
            in Inr (snd (setTimeout (ClassRemove ContactFormClass ''selection-highlight'') 1200 p4))
          else Inr p3
      else Inr p2)"

definition card_click_v2 :: "card \<Rightarrow> page \<Rightarrow> (error \<times> page) + page" where
  "card_click_v2 c p =
     (case card_value c of
        None \<Rightarrow> Inr p
      | Some v \<Rightarrow> if v = [] then Inr p else updateProtocolSelection v True p)"

definition item_click_v2 :: "item \<Rightarrow> page \<Rightarrow> (error \<times> page) + page" where
  "item_click_v2 it p =
     (case item_value it of
        None \<Rightarrow> Inr p
      | Some v \<Rightarrow> if v = [] then Inr p else updateProtocolSelection v False p)"

section \<open>Smooth anchor scrolling and the mobile menu\<close>

text \<open>\<open>document.querySelector(sel)\<close>: \<open>target_top p sel\<close> is the top of the element it
  finds. When it finds none it returns \<open>null\<close>, unless \<open>sel\<close> is no valid selector
  (\<open>bad_selector\<close>, as for \<open>#1st\<close>): then it throws a \<open>SyntaxError\<close>.\<close>

definition querySelector :: "page \<Rightarrow> string \<Rightarrow> error + int option" where
  "querySelector p sel =
     (case target_top p sel of
        Some y \<Rightarrow> Inr (Some y)
      | None \<Rightarrow> if bad_selector p sel then Inl SyntaxError else Inr None)"

text \<open>The click handler of an anchor whose \<open>href\<close> starts with \<open>#\<close>. First variant, lines
  107-132: \<open>menuToggle\<close> is dereferenced without a check.\<close>

definition anchor_click_v1 :: "string \<Rightarrow> page \<Rightarrow> (error \<times> page) + page" where
  "anchor_click_v1 targetId p =
     (if targetId = ''#'' then Inr p
      else case querySelector p targetId of
        Inl e \<Rightarrow> Inl (e, p)
      | Inr None \<Rightarrow> Inr p
      | Inr (Some y) \<Rightarrow>
          let headerOffset = 90;
              offsetPosition = y + scroll_y p - headerOffset;
              p1 = p\<lparr>scrolled_to := Some offsetPosition\<rparr>
          in
          if present p1 MainNav \<and> cl_contains ''active'' (class_list p1 MainNav) then
            let p2 = p1\<lparr>class_list := (class_list p1)
                        (MainNav := cl_remove ''active'' (class_list p1 MainNav))\<rparr>
            in
            if \<not> present p2 MenuToggle then Inl (TypeError, p2)
            else Inr (p2\<lparr>class_list := (class_list p2)
                        (MenuToggle := cl_remove ''open'' (class_list p2 MenuToggle))\<rparr>)
          else Inr p1)"

text \<open>Second variant, lines 396-421: the header is dereferenced without a check, the nav
  is read through \<open>?.\<close>, and closing the menu also clears the scroll lock.\<close>

definition anchor_click_v2 :: "string \<Rightarrow> page \<Rightarrow> (error \<times> page) + page" where
  "anchor_click_v2 targetId p =
     (if targetId = ''#'' \<or> targetId = [] then Inr p
      else case querySelector p targetId of
        Inl e \<Rightarrow> Inl (e, p)
      | Inr None \<Rightarrow> Inr p
      | Inr (Some y) \<Rightarrow>
          if \<not> present p MainHeader then Inl (TypeError, p)
          else
            let headerHeight = (if header_height p = 0 then 80 else header_height p);
                elementPosition = y + scroll_y p;
                p1 = p\<lparr>scrolled_to := Some (elementPosition - headerHeight)\<rparr>
            in
            if present p1 MainNav \<and> cl_contains ''active'' (class_list p1 MainNav) then
              let p2 = p1\<lparr>class_list := (class_list p1)
                          (MainNav := cl_remove ''active'' (class_list p1 MainNav))\<rparr>
              in
              if \<not> present p2 MenuToggle then Inl (TypeError, p2)
              else
                let p3 = p2\<lparr>class_list := (class_list p2)
                            (MenuToggle := cl_remove ''open'' (class_list p2 MenuToggle))\<rparr>;
                    p4 = p3\<lparr>aria_expanded := Some ''false''\<rparr>
                in Inr (p4\<lparr>body_overflow := []\<rparr>)
            else Inr p1)"

text \<open>\<open>initMobileMenu\<close> and the toggle's click handler: lines 140-150 and 428-440.\<close>

definition initMobileMenu :: "page \<Rightarrow> page" where
  "initMobileMenu p =
     (if \<not> present p MenuToggle \<or> \<not> present p MainNav then p
      else p\<lparr>listeners := listeners p @ [OnToggleClick]\<rparr>)"

definition toggle_click_v1 :: "page \<Rightarrow> page" where
  "toggle_click_v1 p =
     (let (cs, isOpen) = cl_toggle ''active'' (class_list p MainNav);
          p1 = p\<lparr>class_list := (class_list p)(MainNav := cs)\<rparr>
      in p1\<lparr>class_list := (class_list p1)
               (MenuToggle := cl_force ''open'' isOpen (class_list p1 MenuToggle))\<rparr>)"

definition toggle_click_v2 :: "page \<Rightarrow> page" where
  "toggle_click_v2 p =
     (let (cs, isOpen) = cl_toggle ''active'' (class_list p MainNav);
          p1 = p\<lparr>class_list := (class_list p)(MainNav := cs)\<rparr>;
          p2 = p1\<lparr>class_list := (class_list p1)
                  (MenuToggle := cl_force ''open'' isOpen (class_list p1 MenuToggle))\<rparr>;
          p3 = p2\<lparr>aria_expanded := Some (if isOpen then ''true'' else ''false'')\<rparr>
      in p3\<lparr>body_overflow := (if isOpen then ''hidden'' else [])\<rparr>)"

section \<open>Scroll reveal\<close>

text \<open>\<open>reveals p\<close> are the class lists of the \<open>.reveal-scroll\<close> elements, \<open>observed p\<close> the
  indices of those the observer watches, and \<open>reveal_log p\<close> records every call of
  \<open>classList.add('active')\<close> on one of them. An entry is a target and its
  \<open>isIntersecting\<close> flag.\<close>

definition initScrollReveal :: "page \<Rightarrow> page" where
  "initScrollReveal p = p\<lparr>observed := [0..<length (reveals p)]\<rparr>"

definition activate :: "nat \<Rightarrow> page \<Rightarrow> page" where
  "activate i p = run_callback (RevealActive i) p"

text \<open>The observer callback of the first variant, lines 72-79.\<close>

definition intersect_v1 :: "(nat \<times> bool) list \<Rightarrow> page \<Rightarrow> page" where
  "intersect_v1 entries p =
     fold (\<lambda>entry q.
             if snd entry then
               (let q1 = activate (fst entry) q
                in q1\<lparr>observed := removeAll (fst entry) (observed q1)\<rparr>)
             else q)
          entries p"

text \<open>The observer callback of the second variant, lines 363-372: the class is added by
  a timer, staggered by the position among the entries that intersect.\<close>

definition intersect_v2 :: "(nat \<times> bool) list \<Rightarrow> page \<Rightarrow> page" where
  "intersect_v2 entries p =
     (let appearing = filter snd entries
      in fold (\<lambda>(index, entry) q.
                 let q1 = snd (setTimeout (RevealActive (fst entry)) (index * 150) q)
                 in q1\<lparr>observed := removeAll (fst entry) (observed q1)\<rparr>)
              (enumerate 0 appearing) p)"

text \<open>An observer reports only targets it observes at the time of the notification.\<close>

definition notify_v1 :: "(nat \<times> bool) list \<Rightarrow> page \<Rightarrow> page" where
  "notify_v1 entries p = intersect_v1 (filter (\<lambda>e. fst e \<in> set (observed p)) entries) p"

definition notify_v2 :: "(nat \<times> bool) list \<Rightarrow> page \<Rightarrow> page" where
  "notify_v2 entries p = intersect_v2 (filter (\<lambda>e. fst e \<in> set (observed p)) entries) p"

section \<open>Letting time pass\<close>

lemma earliest_mem: "earliest ts = Some tm \<Longrightarrow> tm \<in> set ts"
  by (induction ts arbitrary: tm) (auto split: option.splits if_splits)

lemma earliest_none: "earliest ts = None \<longleftrightarrow> ts = []"
  by (cases ts) (auto split: option.splits if_splits)

lemma earliest_least: "earliest ts = Some tm \<Longrightarrow> u \<in> set ts \<Longrightarrow> due tm \<le> due u"
proof (induction ts arbitrary: tm)
  case Nil
  then show ?case by simp
next
  case (Cons a ts)
  show ?case
  proof (cases "earliest ts")
    case None
    then have "ts = []" by (simp add: earliest_none)
    with Cons.prems None show ?thesis by simp
  next
    case (Some v)
    note least = Cons.IH [OF Some]
    from Cons.prems(2) have "u = a \<or> u \<in> set ts" by simp
    then show ?thesis
      using Cons.prems(1) Some least by (auto split: if_splits)
  qed
qed

lemma sum_weight_remove1:
  "tm \<in> set ts \<Longrightarrow>
     sum_list (map (\<lambda>t. weight (cb t)) (remove1 tm ts)) + weight (cb tm) =
     sum_list (map (\<lambda>t. weight (cb t)) ts)"
  by (induction ts) auto

lemma sum_weight_filter:
  "sum_list (map (\<lambda>t. weight (cb t)) (filter P ts)) \<le> sum_list (map (\<lambda>t. weight (cb t)) ts)"
  by (induction ts) auto

lemma load_catch_v1: "load (catch_v1 err r p) \<le> Suc (load p)"
  using sum_weight_filter [of "\<lambda>t. tid t \<noteq> k" "timers p" for k]
  by (auto simp: catch_v1_def load_def setTimeout_def clearTimeout_def Let_def split: option.splits)

lemma load_run_callback: "load (run_callback c p) < load p + weight c"
proof (cases c)
  case (Abort i)
  show ?thesis
  proof (cases "find (\<lambda>r. rid r = i) (requests p)")
    case None
    with Abort show ?thesis by simp
  next
    case (Some r)
    have "load (p\<lparr>requests := remove1 r (requests p)\<rparr>) = load p" by (simp add: load_def)
    with load_catch_v1 [of "(''AbortError'', [])" r "p\<lparr>requests := remove1 r (requests p)\<rparr>"] Abort Some
    show ?thesis by simp
  qed
qed (simp_all add: load_def)

lemma load_fire:
  assumes "tm \<in> set (timers p)"
  shows "load (fire tm p) < load p"
proof -
  let ?q = "p\<lparr>clock := max (clock p) (due tm), timers := remove1 tm (timers p)\<rparr>"
  have "load ?q + weight (cb tm) = load p"
    using sum_weight_remove1 [OF assms] by (simp add: load_def)
  moreover have "load (run_callback (cb tm) ?q) < load ?q + weight (cb tm)"
    by (rule load_run_callback)
  ultimately show ?thesis unfolding fire_def by linarith
qed

text \<open>\<open>run_until t p\<close> lets the clock reach \<open>t\<close>: the timers due by then fire in order,
  those they schedule included. It terminates because an abort schedules one button
  restore and no other callback schedules anything.\<close>

function run_until :: "nat \<Rightarrow> page \<Rightarrow> page" where
  "run_until t p =
     (case earliest (timers p) of
        None \<Rightarrow> p\<lparr>clock := max (clock p) t\<rparr>
      | Some tm \<Rightarrow>
          if due tm \<le> t then run_until t (fire tm p)
          else p\<lparr>clock := max (clock p) t\<rparr>)"
  by pat_completeness auto
termination
  by (relation "measure (\<lambda>(t, p). load p)") (auto intro: load_fire earliest_mem)

declare run_until.simps [simp del]

section \<open>Events\<close>

text \<open>What can happen to the page: time passes, the user acts, a promise settles, the
  intersection observer reports. An exception ends the handler that threw it and leaves
  the page as the handler left it. A form whose submit button is disabled is not
  submitted by the user.\<close>

datatype event =
    Tick nat
  | Submit
  | FetchSettled nat settle
  | JsonSettled nat body
  | CloseOverlay nat
  | ClickCard nat
  | ClickItem nat
  | ClickAnchor string
  | ClickToggle
  | Notify "(nat \<times> bool) list"

definition keep :: "(error \<times> page) + page \<Rightarrow> page" where
  "keep r = (case r of Inl (e, p) \<Rightarrow> p | Inr p \<Rightarrow> p)"

definition initSmoothScroll :: "page \<Rightarrow> page" where
  "initSmoothScroll p = p\<lparr>listeners := listeners p @ [OnAnchorClick]\<rparr>"

definition can_submit :: "page \<Rightarrow> bool" where
  "can_submit p \<longleftrightarrow> OnSubmit \<in> set (listeners p) \<and> \<not> (present p SubmitBtn \<and> btn_disabled p)"

fun step_v1 :: "event \<Rightarrow> page \<Rightarrow> page" where
  "step_v1 (Tick t) p = run_until t p"
| "step_v1 Submit p = (if can_submit p then submit_v1 p else p)"
| "step_v1 (FetchSettled i s) p = fetch_settled_v1 i s p"
| "step_v1 (JsonSettled i b) p = json_settled_v1 i b p"
| "step_v1 (CloseOverlay k) p = close_overlay_v1 k p"
| "step_v1 (ClickCard i) p =
     (if OnCardClick \<in> set (listeners p) \<and> i < length (cards p)
      then keep (card_click_v1 (cards p ! i) p) else p)"
| "step_v1 (ClickItem i) p = p"
| "step_v1 (ClickAnchor h) p =
     (if OnAnchorClick \<in> set (listeners p) then keep (anchor_click_v1 h p) else p)"
| "step_v1 ClickToggle p =
     (if OnToggleClick \<in> set (listeners p) then toggle_click_v1 p else p)"
| "step_v1 (Notify es) p = notify_v1 es p"

fun step_v2 :: "event \<Rightarrow> page \<Rightarrow> page" where
  "step_v2 (Tick t) p = run_until t p"
| "step_v2 Submit p = (if can_submit p then keep (submit_v2 p) else p)"
| "step_v2 (FetchSettled i s) p = fetch_settled_v2 i s p"
| "step_v2 (JsonSettled i b) p = p"
| "step_v2 (CloseOverlay k) p = close_overlay_v2 k p"
| "step_v2 (ClickCard i) p =
     (if OnCardClick \<in> set (listeners p) \<and> i < length (cards p)
      then keep (card_click_v2 (cards p ! i) p) else p)"
| "step_v2 (ClickItem i) p =
     (if OnItemClick \<in> set (listeners p) \<and> i < length (items p)
      then keep (item_click_v2 (items p ! i) p) else p)"
| "step_v2 (ClickAnchor h) p =
     (if OnAnchorClick \<in> set (listeners p) then keep (anchor_click_v2 h p) else p)"
| "step_v2 ClickToggle p =
     (if OnToggleClick \<in> set (listeners p) then toggle_click_v2 p else p)"
| "step_v2 (Notify es) p = notify_v2 es p"

text \<open>The \<open>DOMContentLoaded\<close> handlers, lines 6-14 and 272-280. The sticky header, the
  hero tilt and the preloader write only their own element (a class of the header, the
  transform of the hero card, the preloader itself) and are left out.\<close>

definition loaded_v1 :: "page \<Rightarrow> page" where
  "loaded_v1 p =
     initProtocolSelection_v1 (initContactForm_v1 (initMobileMenu (initSmoothScroll
       (initScrollReveal p))))"

definition loaded_v2 :: "page \<Rightarrow> page" where
  "loaded_v2 p =
     initProtocolSelection_v2 (initContactForm_v2 (initMobileMenu (initSmoothScroll
       (initScrollReveal p))))"

section \<open>What the claims are stated with\<close>

subsection \<open>The button during a submission\<close>

text \<open>Timer callbacks that write the submit button, and a page on which no submission
  is under way: no suspended handler and no pending abort or restore.\<close>

fun touches_button :: "callback \<Rightarrow> bool" where
  "touches_button (Abort i) = True"
| "touches_button (RestoreBtn t) = True"
| "touches_button c = False"

definition idle :: "page \<Rightarrow> bool" where
  "idle p \<longleftrightarrow> requests p = [] \<and> (\<forall>tm \<in> set (timers p). \<not> touches_button (cb tm))"

text \<open>The button shows an error label and is disabled, stays so for the next 3000 ms,
  and from then on is enabled and reads the original label.\<close>

definition reverts_after_3s :: "string \<Rightarrow> page \<Rightarrow> bool" where
  "reverts_after_3s original p \<longleftrightarrow>
     btn_disabled p \<and>
     (btn_label p = ''Error - Try Again'' \<or> btn_label p = ''Timeout - Try Again'') \<and>
     (\<forall>u. u < clock p + 3000 \<longrightarrow>
        btn_disabled (run_until u p) \<and> btn_label (run_until u p) = btn_label p) \<and>
     (\<forall>u. clock p + 3000 \<le> u \<longrightarrow>
        \<not> btn_disabled (run_until u p) \<and> btn_label (run_until u p) = original)"

text \<open>The states a submission started on page \<open>p\<close> goes through, as far as the button
  is concerned: the pending timers that write the button, the request and the abort
  timer the submit handler creates, and the page while the fetch is pending, while
  the body of a response that is not ok is read, after the abort and after a failure.\<close>

definition btimers :: "page \<Rightarrow> timer list" where
  "btimers p = filter (\<lambda>tm. touches_button (cb tm)) (timers p)"

definition same_button :: "page \<Rightarrow> page \<Rightarrow> bool" where
  "same_button p q \<longleftrightarrow>
     btn_label q = btn_label p \<and> btn_disabled q = btn_disabled p \<and> requests q = requests p \<and>
     filter (\<lambda>tm. touches_button (cb tm)) (timers q) = filter (\<lambda>tm. touches_button (cb tm)) (timers p)"

definition abort_timer :: "page \<Rightarrow> timer" where
  "abort_timer p = \<lparr>tid = Suc (fresh p), due = clock p + 10000, cb = Abort (fresh p)\<rparr>"

definition request_v1 :: "page \<Rightarrow> request" where
  "request_v1 p = \<lparr>rid = fresh p, original_text = btn_label p, timeout_id = Some (Suc (fresh p)),
     stage = AwaitFetch, url = form_action p, payload = form_data p\<rparr>"

definition request_v2 :: "page \<Rightarrow> request" where
  "request_v2 p = \<lparr>rid = fresh p, original_text = btn_label p, timeout_id = None,
     stage = AwaitFetch, url = form_action p, payload = form_data p\<rparr>"

definition sending_v1 :: "page \<Rightarrow> page \<Rightarrow> bool" where
  "sending_v1 p q \<longleftrightarrow>
     btn_disabled q \<and> btn_label q = ''Initializing Protocol...'' \<and>
     requests q = [request_v1 p] \<and> btimers q = [abort_timer p]"

definition sending_v2 :: "page \<Rightarrow> page \<Rightarrow> bool" where
  "sending_v2 p q \<longleftrightarrow>
     btn_disabled q \<and> btn_label q = ''Sending...'' \<and>
     requests q = [request_v2 p] \<and> btimers q = []"

definition reading_v1 :: "page \<Rightarrow> page \<Rightarrow> bool" where
  "reading_v1 p q \<longleftrightarrow>
     btn_disabled q \<and> btn_label q = ''Initializing Protocol...'' \<and>
     requests q = [(request_v1 p)\<lparr>stage := AwaitJson\<rparr>] \<and> btimers q = []"

definition timed_out :: "page \<Rightarrow> page \<Rightarrow> bool" where
  "timed_out p q \<longleftrightarrow>
     btn_disabled q \<and> btn_label q = ''Timeout - Try Again'' \<and> requests q = [] \<and>
     (\<exists>k. btimers q = [\<lparr>tid = k, due = clock p + 13000, cb = RestoreBtn (btn_label p)\<rparr>]) \<and>
     console q \<noteq> [] \<and> fst (last (console q)) = ''AbortError''"

definition failed :: "string \<Rightarrow> page \<Rightarrow> bool" where
  "failed original p \<longleftrightarrow>
     btn_disabled p \<and>
     (btn_label p = ''Error - Try Again'' \<or> btn_label p = ''Timeout - Try Again'') \<and>
     (\<exists>k. btimers p = [\<lparr>tid = k, due = clock p + 3000, cb = RestoreBtn original\<rparr>])"

subsection \<open>The success overlay\<close>

text \<open>After a successful submission that found the controls \<open>before\<close> in the form: the
  form holds the same controls, each in the state it had on load; it holds one overlay,
  which gets its \<open>active\<close> class 10 ms later and not before; and the overlay's close
  action, whenever it runs, leaves the form without overlay.\<close>

definition shows_overlay :: "(nat \<Rightarrow> page \<Rightarrow> page) \<Rightarrow> field list \<Rightarrow> page \<Rightarrow> bool" where
  "shows_overlay close before p \<longleftrightarrow>
     form_fields p = map (\<lambda>f. f\<lparr>fstate := finit f\<rparr>) before \<and>
     (\<exists>k. overlays p = [\<lparr>oid = k, oclasses = [''form-success-overlay'']\<rparr>] \<and>
        (\<forall>u. u < clock p + 10 \<longrightarrow> overlays (run_until u p) = overlays p) \<and>
        (\<forall>u. clock p + 10 \<le> u \<longrightarrow>
           overlays (run_until u p) =
             [\<lparr>oid = k, oclasses = [''form-success-overlay'', ''active'']\<rparr>]) \<and>
        (\<forall>u. overlays (close k (run_until u p)) = []))"

text \<open>Overlay ids are handles the page has given out: a pending activation names an
  overlay that was created before.\<close>

definition overlay_ids_fresh :: "page \<Rightarrow> bool" where
  "overlay_ids_fresh p \<longleftrightarrow> (\<forall>tm \<in> set (timers p). \<forall>k. cb tm = OverlayActive k \<longrightarrow> k < fresh p)"

definition quiet_since :: "page \<Rightarrow> page \<Rightarrow> bool" where
  "quiet_since p q \<longleftrightarrow>
     fresh q = fresh p \<and> set (timers q) \<subseteq> set (timers p) \<and>
     map oid (overlays q) = map oid (overlays p) \<and> form_fields q = form_fields p"

subsection \<open>Selectors and the menu\<close>

text \<open>The list selectors that carry the \<open>active\<close> class, and the menu being open.\<close>

definition active_items :: "page \<Rightarrow> item list" where
  "active_items p = filter (\<lambda>it. cl_contains ''active'' (item_classes it)) (items p)"

definition menu_open :: "page \<Rightarrow> bool" where
  "menu_open p \<longleftrightarrow> cl_contains ''active'' (class_list p MainNav)"

subsection \<open>Abort timers\<close>

text \<open>Every pending abort timer belongs to a request whose fetch has not settled. The
  invariant that carries this through all events adds that handles are fresh, request
  ids are distinct, and the request knows the handle of its abort timer.\<close>

definition aborts_in_flight :: "page \<Rightarrow> bool" where
  "aborts_in_flight p \<longleftrightarrow>
     (\<forall>tm \<in> set (timers p). \<forall>i. cb tm = Abort i \<longrightarrow>
        (\<exists>r \<in> set (requests p). rid r = i \<and> stage r = AwaitFetch))"

definition wf :: "page \<Rightarrow> bool" where
  "wf p \<longleftrightarrow>
     (\<forall>tm \<in> set (timers p). tid tm < fresh p) \<and>
     (\<forall>r \<in> set (requests p). rid r < fresh p) \<and>
     distinct (map rid (requests p)) \<and>
     (\<forall>tm \<in> set (timers p). \<forall>i. cb tm = Abort i \<longrightarrow>
        (\<exists>r \<in> set (requests p). rid r = i \<and> stage r = AwaitFetch \<and> timeout_id r = Some (tid tm)))"

subsection \<open>Scroll reveal\<close>






text \<open>The \<open>#program\<close> control takes the value \<open>v\<close>: it is there, and \<open>v\<close> is the value
  of one of its options when it is a select.\<close>

definition accepts :: "page \<Rightarrow> string \<Rightarrow> bool" where
  "accepts p v \<longleftrightarrow>
     (case programSelect p of
        None \<Rightarrow> False
      | Some f \<Rightarrow> (case foptions f of None \<Rightarrow> True | Some opts \<Rightarrow> v \<in> set opts))"

text \<open>Every list selector marked \<open>active\<close> carries the current value of the field.\<close>

definition selectors_match :: "page \<Rightarrow> bool" where
  "selectors_match p \<longleftrightarrow>
     list_all (\<lambda>it. item_value it = Some (program_value p)) (active_items p)"

text \<open>Every non-empty \<open>data-value\<close> of a card or a list selector is a value the field
  takes.\<close>

definition values_accepted :: "page \<Rightarrow> bool" where
  "values_accepted p \<longleftrightarrow>
     list_all (\<lambda>c. \<forall>v \<in> set_option (card_value c). v \<noteq> [] \<longrightarrow> accepts p v) (cards p) \<and>
     list_all (\<lambda>it. \<forall>v \<in> set_option (item_value it). v \<noteq> [] \<longrightarrow> accepts p v) (items p)"

text \<open>The event that makes the handler call \<open>contactForm.reset()\<close>: a response with
  \<open>ok\<close> set.\<close>

fun success :: "event \<Rightarrow> bool" where
  "success (FetchSettled i (Fulfilled ok)) = ok"
| "success e = False"

text \<open>What the selection handlers read and write.\<close>

definition selection :: "page \<Rightarrow> item list \<times> card list \<times> field list" where
  "selection p = (items p, cards p, form_fields p)"


subsection \<open>Example pages\<close>

text \<open>A page with every looked-up element, two cards, two list selectors, two filled-in
  text fields, the \<open>#program\<close> select with a placeholder and two options, and nothing
  pending.\<close>

definition demo :: page where
  "demo = \<lparr>present = (\<lambda>n. True), class_list = (\<lambda>n. []), listeners = [],
     cards = [\<lparr>card_value = Some ''elite'', card_cursor = []\<rparr>,
              \<lparr>card_value = None, card_cursor = []\<rparr>],
     items = [\<lparr>item_value = Some ''starter'', item_classes = [''selector-item'']\<rparr>,
              \<lparr>item_value = Some ''elite'', item_classes = [''selector-item'']\<rparr>],
     contact_top = 1200,
     target_top = (\<lambda>s. if s = ''#contact'' then Some 1200 else None),
     bad_selector = (\<lambda>s. s = ''#1st''),
     scroll_y = 0, header_height = 72, scrolled_to = None, aria_expanded = None,
     body_overflow = [], btn_label = ''Send Inquiry'', btn_disabled = False, btn_opacity = ''1'',
     form_fields =
       [\<lparr>fid = ''name'', fname = ''name'', foptions = None, finit = Some [],
          fstate = Some ''Ada''\<rparr>,
        \<lparr>fid = ''email'', fname = ''email'', foptions = None, finit = Some [],
          fstate = Some ''ada@example.org''\<rparr>,
        \<lparr>fid = ''program'', fname = ''program'',
          foptions = Some ['''', ''starter'', ''elite''], finit = Some [], fstate = Some []\<rparr>],
     form_action = ''/f/inquiry'', form_position = [], overlays = [],
     reveals = [[''reveal-scroll''], [''reveal-scroll'']], observed = [], reveal_log = [],
     clock = 0, fresh = 0, timers = [], requests = [], console = []\<rparr>"

text \<open>The same page with a single list selector, for another value than the first
  card's; without the contact section; without the main header; with the menu open.\<close>

definition demo_unmatched :: page where
  "demo_unmatched =
     demo\<lparr>items := [\<lparr>item_value = Some ''starter'', item_classes = [''selector-item'']\<rparr>]\<rparr>"

definition demo_no_contact :: page where
  "demo_no_contact = demo\<lparr>present := (present demo)(ContactSection := False)\<rparr>"

definition demo_no_header :: page where
  "demo_no_header = demo\<lparr>present := (present demo)(MainHeader := False)\<rparr>"

definition demo_menu_open :: page where
  "demo_menu_open = toggle_click_v2 demo"


text \<open>The example page with a single card, whose value is no option of the select.\<close>

definition demo_vip :: page where
  "demo_vip = demo\<lparr>cards := [\<lparr>card_value = Some ''vip'', card_cursor = []\<rparr>]\<rparr>"

text \<open>The example page with one more list selector, which has no \<open>data-value\<close>; and a
  visit of the page: a selector and a card are clicked, then the form is submitted and
  the server answers with an error status.\<close>

definition demo_unlabelled :: page where
  "demo_unlabelled =
     demo\<lparr>items := [\<lparr>item_value = None, item_classes = [''selector-item'']\<rparr>]\<rparr>"

definition demo_session :: "event list" where
  "demo_session = [ClickItem 0, Tick 500, ClickCard 0, Tick 2000, Submit,
     FetchSettled 1 (Fulfilled False), Tick 9000]"

text \<open>The demo page with one text field that is preset to \<open>Bob\<close> and now reads
  \<open>Alice\<close>.\<close>

definition demo_preset :: page where
  "demo_preset =
     demo\<lparr>form_fields := [\<lparr>fid = ''name'', fname = ''name'', foptions = None,
                               finit = Some ''Bob'', fstate = Some ''Alice''\<rparr>]\<rparr>"



section \<open>Reasoning about time\<close>

text \<open>An invariant of the timers that fire carries over to \<open>run_until\<close>.\<close>

lemma run_until_rule:
  assumes "I p"
    and "\<And>q tm. I q \<Longrightarrow> earliest (timers q) = Some tm \<Longrightarrow> due tm \<le> t \<Longrightarrow> I (fire tm q)"
    and "\<And>q. I q \<Longrightarrow> (\<forall>tm \<in> set (timers q). t < due tm) \<Longrightarrow> Q (q\<lparr>clock := max (clock q) t\<rparr>)"
  shows "Q (run_until t p)"
  using assms
proof (induction t p rule: run_until.induct)
  case (1 t p)
  note inv = "1.prems"(1) and step = "1.prems"(2) and fin = "1.prems"(3)
  show ?case
  proof (cases "earliest (timers p)")
    case None
    then have "timers p = []" by (simp add: earliest_none)
    then have "\<forall>tm \<in> set (timers p). t < due tm" by simp
    from fin [OF inv this] have "Q (p\<lparr>clock := max (clock p) t\<rparr>)" .
    moreover have "run_until t p = p\<lparr>clock := max (clock p) t\<rparr>"
      using None by (subst run_until.simps) simp
    ultimately show ?thesis by simp
  next
    case (Some tm)
    show ?thesis
    proof (cases "due tm \<le> t")
      case True
      have "run_until t p = run_until t (fire tm p)"
        using Some True by (subst run_until.simps) simp
      moreover have "Q (run_until t (fire tm p))"
        using step fin by (intro "1.IH" [OF Some True step [OF inv Some True]]) blast+
      ultimately show ?thesis by simp
    next
      case False
      then have "\<forall>u \<in> set (timers p). t < due u"
        using earliest_least [OF Some] by fastforce
      from fin [OF inv this] have "Q (p\<lparr>clock := max (clock p) t\<rparr>)" .
      moreover have "run_until t p = p\<lparr>clock := max (clock p) t\<rparr>"
        using Some False by (subst run_until.simps) simp
      ultimately show ?thesis by simp
    qed
  qed
qed

text \<open>What a callback that is neither an abort nor a restore leaves alone.\<close>

lemma fire_other:
  assumes "\<not> touches_button (cb tm)"
  shows "btn_label (fire tm p) = btn_label p" "btn_disabled (fire tm p) = btn_disabled p"
    "requests (fire tm p) = requests p" "timers (fire tm p) = remove1 tm (timers p)"
    "fresh (fire tm p) = fresh p" "clock (fire tm p) = max (clock p) (due tm)"
  using assms by (cases "cb tm"; simp add: fire_def)+

lemma filter_remove1_other: "\<not> P x \<Longrightarrow> filter P (remove1 x xs) = filter P xs"
  by (induction xs) auto

lemma run_until_waits:
  assumes "\<forall>tm \<in> set (timers p). touches_button (cb tm) \<longrightarrow> t < due tm"
  shows "same_button p (run_until t p) \<and> clock (run_until t p) = max (clock p) t"
proof (rule run_until_rule [where I = "\<lambda>q. same_button p q \<and> clock p \<le> clock q \<and> clock q \<le> max (clock p) t"])
  show "same_button p p \<and> clock p \<le> clock p \<and> clock p \<le> max (clock p) t"
    by (simp add: same_button_def)
next
  fix q tm
  assume inv: "same_button p q \<and> clock p \<le> clock q \<and> clock q \<le> max (clock p) t"
    and e: "earliest (timers q) = Some tm" and d: "due tm \<le> t"
  have "tm \<in> set (timers q)" using e by (rule earliest_mem)
  have other: "\<not> touches_button (cb tm)"
  proof
    assume tb: "touches_button (cb tm)"
    with \<open>tm \<in> set (timers q)\<close> have "tm \<in> set (filter (\<lambda>tm. touches_button (cb tm)) (timers q))" by simp
    with inv have "tm \<in> set (timers p)" by (simp add: same_button_def)
    with assms tb d show False by fastforce
  qed
  show "same_button p (fire tm q) \<and> clock p \<le> clock (fire tm q) \<and> clock (fire tm q) \<le> max (clock p) t"
    using inv d by (auto simp: same_button_def fire_other [OF other] filter_remove1_other [of "\<lambda>tm. touches_button (cb tm)", OF other])
next
  fix q
  assume "same_button p q \<and> clock p \<le> clock q \<and> clock q \<le> max (clock p) t"
  then show "same_button p (q\<lparr>clock := max (clock q) t\<rparr>) \<and> clock (q\<lparr>clock := max (clock q) t\<rparr>) = max (clock p) t"
    by (auto simp: same_button_def)
qed

section \<open>Failed submissions\<close>

lemma btimers_mem: "tm \<in> set (btimers p) \<longleftrightarrow> tm \<in> set (timers p) \<and> touches_button (cb tm)"
  by (auto simp: btimers_def)

lemma same_button_btimers: "same_button p q \<Longrightarrow> btimers q = btimers p"
  by (simp add: same_button_def btimers_def)

lemma failed_holds:
  assumes "failed original p" and "u < clock p + 3000"
  shows "btn_disabled (run_until u p) \<and> btn_label (run_until u p) = btn_label p"
proof -
  have "\<forall>tm \<in> set (timers p). touches_button (cb tm) \<longrightarrow> u < due tm"
  proof (intro ballI impI)
    fix tm assume "tm \<in> set (timers p)" "touches_button (cb tm)"
    then have "tm \<in> set (btimers p)" by (simp add: btimers_mem)
    with assms show "u < due tm" by (auto simp: failed_def)
  qed
  from run_until_waits [OF this] assms(1) show ?thesis
    by (simp add: same_button_def failed_def)
qed

lemma failed_restores:
  assumes "failed original p" and "clock p + 3000 \<le> u"
  shows "\<not> btn_disabled (run_until u p) \<and> btn_label (run_until u p) = original"
proof -
  from assms(1) obtain k where bt: "btimers p = [\<lparr>tid = k, due = clock p + 3000, cb = RestoreBtn original\<rparr>]"
    by (auto simp: failed_def)
  let ?r = "\<lparr>tid = k, due = clock p + 3000, cb = RestoreBtn original\<rparr>"
  let ?I = "\<lambda>q. btimers q = [?r] \<or> (btimers q = [] \<and> \<not> btn_disabled q \<and> btn_label q = original)"
  show ?thesis
  proof (rule run_until_rule [where I = ?I])
    show "?I p" using bt by simp
  next
    fix q tm
    assume inv: "?I q" and e: "earliest (timers q) = Some tm" and d: "due tm \<le> u"
    have mem: "tm \<in> set (timers q)" using e by (rule earliest_mem)
    show "?I (fire tm q)"
    proof (cases "touches_button (cb tm)")
      case False
      then have "btimers (fire tm q) = btimers q"
        by (simp add: btimers_def fire_other [OF False] filter_remove1_other [of "\<lambda>tm. touches_button (cb tm)", OF False])
      with inv False show ?thesis by (auto simp: fire_other [OF False])
    next
      case True
      with mem have "tm \<in> set (btimers q)" by (simp add: btimers_mem)
      with inv have tm: "btimers q = [?r]" "tm = ?r" by auto
      have "btimers (fire tm q) = remove1 tm (btimers q)"
        using tm(2) by (simp add: fire_def btimers_def filter_remove1)
      with tm show ?thesis by (simp add: fire_def)
    qed
  next
    fix q
    assume inv: "?I q" and late: "\<forall>tm \<in> set (timers q). u < due tm"
    have "btimers q \<noteq> [?r]"
    proof
      assume "btimers q = [?r]"
      then have "?r \<in> set (timers q)" using btimers_mem [of ?r q] by simp
      with late assms(2) show False by fastforce
    qed
    with inv show "\<not> btn_disabled (q\<lparr>clock := max (clock q) u\<rparr>) \<and> btn_label (q\<lparr>clock := max (clock q) u\<rparr>) = original"
      by simp
  qed
qed

lemma failed_reverts: "failed original p \<Longrightarrow> reverts_after_3s original p"
  unfolding reverts_after_3s_def
  using failed_holds failed_restores by (auto simp: failed_def)

lemma catch_v1_failed:
  assumes "btn_disabled p"
    and "\<forall>tm \<in> set (btimers p). timeout_id r = Some (tid tm)"
  shows "failed (original_text r) (catch_v1 err r p)"
proof -
  have "filter (\<lambda>tm. touches_button (cb tm)) (filter (\<lambda>t. tid t \<noteq> k) (timers p)) = []"
    if "timeout_id r = Some k" for k
    using assms(2) that by (auto simp: btimers_mem filter_empty_conv)
  moreover have "btimers p = []" if "timeout_id r = None"
    using assms(2) that by (cases "btimers p") auto
  ultimately show ?thesis
    using assms(1)
    by (cases "timeout_id r")
       (auto simp: failed_def catch_v1_def clearTimeout_def setTimeout_def btimers_def Let_def)
qed

lemma catch_v2_failed:
  assumes "btn_disabled p" and "btimers p = []"
  shows "failed (original_text r) (catch_v2 r p)"
  using assms by (simp add: failed_def catch_v2_def setTimeout_def btimers_def Let_def)

lemma idle_btimers: "idle p \<Longrightarrow> btimers p = []"
  by (auto simp: idle_def btimers_def filter_empty_conv)

lemma submit_v1_sending:
  assumes "idle p" and "present p SubmitBtn"
  shows "sending_v1 p (submit_v1 p)" and "clock (submit_v1 p) = clock p"
    and "overlays (submit_v1 p) = overlays p" and "form_fields (submit_v1 p) = form_fields p"
  using assms idle_btimers [OF assms(1)]
  by (simp_all add: sending_v1_def submit_v1_def setTimeout_def Let_def btimers_def
        abort_timer_def request_v1_def idle_def)

lemma submit_v2_sending:
  assumes "idle p" and "present p SubmitBtn"
  shows "\<exists>q. submit_v2 p = Inr q \<and> sending_v2 p q \<and> clock q = clock p
           \<and> overlays q = overlays p \<and> form_fields q = form_fields p"
  using assms idle_btimers [OF assms(1)]
  by (simp add: sending_v2_def submit_v2_def Let_def btimers_def request_v2_def idle_def)

lemma sending_v1_waits:
  assumes "sending_v1 p q" and "t < clock p + 10000"
  shows "sending_v1 p (run_until t q)"
proof -
  have "\<forall>tm \<in> set (timers q). touches_button (cb tm) \<longrightarrow> t < due tm"
  proof (intro ballI impI)
    fix tm assume "tm \<in> set (timers q)" "touches_button (cb tm)"
    then have "tm \<in> set (btimers q)" by (simp add: btimers_mem)
    with assms show "t < due tm" by (simp add: sending_v1_def abort_timer_def)
  qed
  from run_until_waits [OF this] assms(1) show ?thesis
    using same_button_btimers [of q "run_until t q"]
    by (simp add: sending_v1_def same_button_def)
qed

lemma sending_v2_waits:
  assumes "sending_v2 p q"
  shows "sending_v2 p (run_until t q)"
proof -
  have "\<forall>tm \<in> set (timers q). touches_button (cb tm) \<longrightarrow> t < due tm"
  proof (intro ballI impI)
    fix tm assume "tm \<in> set (timers q)" "touches_button (cb tm)"
    then have "tm \<in> set (btimers q)" by (simp add: btimers_mem)
    with assms show "t < due tm" by (simp add: sending_v2_def)
  qed
  from run_until_waits [OF this] assms(1) show ?thesis
    using same_button_btimers [of q "run_until t q"]
    by (simp add: sending_v2_def same_button_def)
qed

lemma network_failure_v1:
  assumes "sending_v1 p q"
  shows "failed (btn_label p) (fetch_settled_v1 (fresh p) (Rejected e) q)"
proof -
  let ?q0 = "q\<lparr>requests := remove1 (request_v1 p) (requests q)\<rparr>"
  have "fetch_settled_v1 (fresh p) (Rejected e) q = catch_v1 e (request_v1 p) ?q0"
    using assms by (simp add: fetch_settled_v1_def sending_v1_def request_v1_def)
  moreover have "failed (original_text (request_v1 p)) (catch_v1 e (request_v1 p) ?q0)"
    using assms by (intro catch_v1_failed)
      (simp_all add: sending_v1_def btimers_def request_v1_def abort_timer_def)
  ultimately show ?thesis by (simp add: request_v1_def)
qed

lemma not_ok_v1:
  assumes "sending_v1 p q"
  shows "reading_v1 p (fetch_settled_v1 (fresh p) (Fulfilled False) q)"
proof -
  have "\<not> (tid x \<noteq> Suc (fresh p) \<and> touches_button (cb x))" if "x \<in> set (timers q)" for x
  proof
    assume a: "tid x \<noteq> Suc (fresh p) \<and> touches_button (cb x)"
    with that have "x \<in> set (btimers q)" by (simp add: btimers_mem)
    with assms have "x = abort_timer p" by (simp add: sending_v1_def)
    with a show False by (simp add: abort_timer_def)
  qed
  then have "filter (\<lambda>tm. touches_button (cb tm)) (filter (\<lambda>t. tid t \<noteq> Suc (fresh p)) (timers q)) = []"
    by (auto simp: filter_empty_conv)
  then show ?thesis
    using assms
    by (simp add: fetch_settled_v1_def sending_v1_def reading_v1_def request_v1_def
          clearTimeout_def btimers_def)
qed

lemma reading_v1_waits:
  assumes "reading_v1 p q"
  shows "reading_v1 p (run_until t q)"
proof -
  have "\<forall>tm \<in> set (timers q). touches_button (cb tm) \<longrightarrow> t < due tm"
  proof (intro ballI impI)
    fix tm assume "tm \<in> set (timers q)" "touches_button (cb tm)"
    then have "tm \<in> set (btimers q)" by (simp add: btimers_mem)
    with assms show "t < due tm" by (simp add: reading_v1_def)
  qed
  from run_until_waits [OF this] assms(1) show ?thesis
    using same_button_btimers [of q "run_until t q"]
    by (simp add: reading_v1_def same_button_def)
qed

lemma rejection_v1:
  assumes "reading_v1 p q"
  shows "failed (btn_label p) (json_settled_v1 (fresh p) b q)"
proof -
  let ?r = "(request_v1 p)\<lparr>stage := AwaitJson\<rparr>"
  let ?q0 = "q\<lparr>requests := remove1 ?r (requests q)\<rparr>"
  have "\<exists>err. json_settled_v1 (fresh p) b q = catch_v1 err ?r ?q0"
    using assms by (cases b) (auto simp: json_settled_v1_def reading_v1_def request_v1_def)
  moreover have "failed (original_text ?r) (catch_v1 err ?r ?q0)" for err
    using assms by (intro catch_v1_failed) (simp_all add: reading_v1_def btimers_def)
  ultimately show ?thesis by (auto simp: request_v1_def)
qed

lemma failure_v2:
  assumes "sending_v2 p q" and "s = Rejected e \<or> s = Fulfilled False"
  shows "failed (btn_label p) (fetch_settled_v2 (fresh p) s q)"
proof -
  let ?q0 = "q\<lparr>requests := remove1 (request_v2 p) (requests q)\<rparr>"
  have "fetch_settled_v2 (fresh p) s q = catch_v2 (request_v2 p) ?q0"
    using assms by (auto simp: fetch_settled_v2_def sending_v2_def request_v2_def)
  moreover have "failed (original_text (request_v2 p)) (catch_v2 (request_v2 p) ?q0)"
    using assms by (intro catch_v2_failed) (simp_all add: sending_v2_def btimers_def)
  ultimately show ?thesis by (simp add: request_v2_def)
qed

lemma fire_abort:
  assumes "sending_v1 p q" and "clock q \<le> clock p + 10000"
  shows "timed_out p (fire (abort_timer p) q)" and "clock (fire (abort_timer p) q) = clock p + 10000"
proof -
  let ?a = "abort_timer p"
  have bt: "filter (\<lambda>tm. touches_button (cb tm)) (timers q) = [?a]"
    using assms by (simp add: sending_v1_def btimers_def)
  have "filter (\<lambda>tm. touches_button (cb tm)) (remove1 ?a (timers q)) = []"
    using bt by (simp add: filter_remove1)
  then have none: "filter (\<lambda>tm. touches_button (cb tm))
           (filter (\<lambda>t. tid t \<noteq> Suc (fresh p)) (remove1 ?a (timers q))) = []"
    by (auto simp: filter_empty_conv)
  have max: "max (clock q) (clock p + 10000) = clock p + 10000"
    using assms(2) by simp
  show "timed_out p (fire ?a q)"
    using assms(1) none max
    by (simp add: timed_out_def fire_def abort_timer_def sending_v1_def request_v1_def
          catch_v1_def clearTimeout_def setTimeout_def btimers_def Let_def)
  show "clock (fire ?a q) = clock p + 10000"
    using assms(1) max
    by (simp add: fire_def abort_timer_def sending_v1_def request_v1_def
          catch_v1_def clearTimeout_def setTimeout_def Let_def)
qed

lemma timeout_v1:
  assumes "sending_v1 p q" and "clock q \<le> clock p + 10000"
    and "clock p + 10000 \<le> u" and "u < clock p + 13000"
  shows "timed_out p (run_until u q) \<and> clock (run_until u q) = u"
proof -
  let ?I = "\<lambda>q. clock q \<le> u \<and>
     ((sending_v1 p q \<and> clock q \<le> clock p + 10000) \<or> (timed_out p q \<and> clock p + 10000 \<le> clock q))"
  show ?thesis
  proof (rule run_until_rule [where I = ?I])
    show "?I q" using assms by simp
  next
    fix q tm
    assume inv: "?I q" and e: "earliest (timers q) = Some tm" and d: "due tm \<le> u"
    have mem: "tm \<in> set (timers q)" using e by (rule earliest_mem)
    show "?I (fire tm q)"
    proof (cases "touches_button (cb tm)")
      case False
      have bt: "btimers (fire tm q) = btimers q"
        by (simp add: btimers_def fire_other [OF False]
              filter_remove1_other [of "\<lambda>tm. touches_button (cb tm)", OF False])
      have cons: "console (fire tm q) = console q"
        using False by (cases "cb tm") (simp_all add: fire_def)
      from inv show ?thesis
      proof (elim conjE disjE)
        assume s: "sending_v1 p q" and c: "clock q \<le> clock p + 10000" "clock q \<le> u"
        have "due tm \<le> due (abort_timer p)"
        proof (rule earliest_least [OF e])
          have "abort_timer p \<in> set (btimers q)" using s by (simp add: sending_v1_def)
          then show "abort_timer p \<in> set (timers q)" by (simp add: btimers_mem)
        qed
        then have "due tm \<le> clock p + 10000" by (simp add: abort_timer_def)
        with s c d bt show ?thesis
          by (simp add: sending_v1_def fire_other [OF False])
      next
        assume s: "timed_out p q" and c: "clock p + 10000 \<le> clock q" "clock q \<le> u"
        have "clock p + 10000 \<le> max (clock q) (due tm)" using c by simp
        with s c d bt cons show ?thesis
          by (simp add: timed_out_def fire_other [OF False])
      qed
    next
      case True
      with mem have tmb: "tm \<in> set (btimers q)" by (simp add: btimers_mem)
      from inv show ?thesis
      proof (elim conjE disjE)
        assume s: "sending_v1 p q" and c: "clock q \<le> clock p + 10000" "clock q \<le> u"
        from s tmb have "tm = abort_timer p" by (simp add: sending_v1_def)
        with fire_abort [OF s c(1)] assms(3) show ?thesis by simp
      next
        assume s: "timed_out p q"
        with tmb have "due tm = clock p + 13000" by (auto simp: timed_out_def)
        with d assms(4) show ?thesis by simp
      qed
    qed
  next
    fix q
    assume inv: "?I q" and late: "\<forall>tm \<in> set (timers q). u < due tm"
    have "\<not> sending_v1 p q"
    proof
      assume "sending_v1 p q"
      then have "abort_timer p \<in> set (btimers q)" by (simp add: sending_v1_def)
      then have "abort_timer p \<in> set (timers q)" by (simp add: btimers_mem)
      with late assms(3) show False by (fastforce simp: abort_timer_def)
    qed
    with inv have t: "timed_out p q" and c: "clock q \<le> u" by auto
    then show "timed_out p (q\<lparr>clock := max (clock q) u\<rparr>) \<and> clock (q\<lparr>clock := max (clock q) u\<rparr>) = u"
      by (simp add: timed_out_def btimers_def)
  qed
qed

lemma timed_out_failed: "timed_out p q \<Longrightarrow> clock q = clock p + 10000 \<Longrightarrow> failed (btn_label p) q"
  by (auto simp: timed_out_def failed_def)

section \<open>Successful submissions\<close>

lemma fire_other_more:
  assumes "\<not> touches_button (cb tm)"
  shows "map oid (overlays (fire tm p)) = map oid (overlays p)"
    "form_fields (fire tm p) = form_fields p"
  using assms by (cases "cb tm"; simp add: fire_def comp_def if_distrib cong: if_cong)+

lemma run_until_quiet:
  assumes "\<forall>tm \<in> set (timers p). touches_button (cb tm) \<longrightarrow> t < due tm"
  shows "quiet_since p (run_until t p)"
proof (rule run_until_rule [where I = "\<lambda>q. quiet_since p q"])
  show "quiet_since p p" by (simp add: quiet_since_def)
next
  fix q tm
  assume inv: "quiet_since p q" and e: "earliest (timers q) = Some tm" and d: "due tm \<le> t"
  have mem: "tm \<in> set (timers q)" using e by (rule earliest_mem)
  with inv have "tm \<in> set (timers p)" by (auto simp: quiet_since_def)
  with assms d have other: "\<not> touches_button (cb tm)" by fastforce
  have "set (remove1 tm (timers q)) \<subseteq> set (timers q)" by (rule set_remove1_subset)
  with inv show "quiet_since p (fire tm q)"
    by (auto simp: quiet_since_def fire_other [OF other] fire_other_more [OF other])
next
  fix q
  assume "quiet_since p q"
  then show "quiet_since p (q\<lparr>clock := max (clock q) t\<rparr>)" by (simp add: quiet_since_def)
qed

lemma overlay_appears:
  assumes ov: "overlays p = [\<lparr>oid = k, oclasses = cs\<rparr>]" and fresh: "''active'' \<notin> set cs"
    and bt: "btimers p = []"
    and tm: "\<lparr>tid = j, due = d, cb = OverlayActive k\<rparr> \<in> set (timers p)"
    and only: "\<forall>tm \<in> set (timers p). cb tm = OverlayActive k \<longrightarrow> d \<le> due tm"
  shows "u < d \<Longrightarrow> overlays (run_until u p) = overlays p"
    and "d \<le> u \<Longrightarrow> overlays (run_until u p) = [\<lparr>oid = k, oclasses = cs @ [''active'']\<rparr>]"
proof -
  let ?a = "\<lparr>tid = j, due = d, cb = OverlayActive k\<rparr>"
  let ?I = "\<lambda>q. btimers q = [] \<and> set (timers q) \<subseteq> set (timers p) \<and>
     ((overlays q = [\<lparr>oid = k, oclasses = cs\<rparr>] \<and> ?a \<in> set (timers q)) \<or>
       overlays q = [\<lparr>oid = k, oclasses = cs @ [''active'']\<rparr>])"
  have start: "?I p" using ov bt tm by simp
  have step: "?I (fire tm q)"
    if inv: "?I q" and e: "earliest (timers q) = Some tm" for q tm
  proof -
    have mem: "tm \<in> set (timers q)" using e by (rule earliest_mem)
    from inv have "btimers q = []" by simp
    with mem have other: "\<not> touches_button (cb tm)"
      using btimers_mem [of tm q] by auto
    have bt': "btimers (fire tm q) = []"
      using inv by (simp add: btimers_def fire_other [OF other]
            filter_remove1_other [of "\<lambda>tm. touches_button (cb tm)", OF other])
    have sub: "set (timers (fire tm q)) \<subseteq> set (timers p)"
      using inv set_remove1_subset [of tm "timers q"] by (auto simp: fire_other [OF other])
    show ?thesis
    proof (cases "cb tm = OverlayActive k")
      case True
      then have "overlays (fire tm q) = [\<lparr>oid = k, oclasses = cs @ [''active'']\<rparr>]"
        using inv fresh by (auto simp: fire_def cl_add_def)
      with bt' sub show ?thesis by simp
    next
      case False
      then have same: "overlays (fire tm q) = overlays q"
        using inv other by (cases "cb tm") (auto simp: fire_def)
      have "?a \<in> set (timers (fire tm q))" if "?a \<in> set (timers q)"
      proof -
        from False have "tm \<noteq> ?a" by auto
        with that show ?thesis by (simp add: fire_other [OF other])
      qed
      with inv same bt' sub show ?thesis by auto
    qed
  qed
  show "overlays (run_until u p) = overlays p" if "u < d"
  proof (rule run_until_rule [where I = "\<lambda>q. ?I q \<and> overlays q = overlays p"])
    show "?I p \<and> overlays p = overlays p" using start by simp
  next
    fix q tm
    assume inv: "?I q \<and> overlays q = overlays p"
      and e: "earliest (timers q) = Some tm" and d: "due tm \<le> u"
    have mem: "tm \<in> set (timers q)" using e by (rule earliest_mem)
    then have "tm \<in> set (timers p)" using inv by auto
    with only d that have "cb tm \<noteq> OverlayActive k" by fastforce
    moreover have "\<not> touches_button (cb tm)"
      using inv mem btimers_mem [of tm q] by auto
    ultimately have "overlays (fire tm q) = overlays q"
      using inv ov by (cases "cb tm") (auto simp: fire_def)
    moreover from inv have "?I q" by blast
    then have "?I (fire tm q)" using e by (rule step)
    moreover from inv have "overlays q = overlays p" by blast
    ultimately show "?I (fire tm q) \<and> overlays (fire tm q) = overlays p" by simp
  next
    fix q assume "?I q \<and> overlays q = overlays p"
    then show "overlays (q\<lparr>clock := max (clock q) u\<rparr>) = overlays p" by simp
  qed
  show "overlays (run_until u p) = [\<lparr>oid = k, oclasses = cs @ [''active'']\<rparr>]" if "d \<le> u"
  proof (rule run_until_rule [where I = ?I])
    show "?I p" by (rule start)
  next
    fix q tm assume "?I q" "earliest (timers q) = Some tm"
    then show "?I (fire tm q)" by (rule step)
  next
    fix q assume inv: "?I q" and late: "\<forall>tm \<in> set (timers q). u < due tm"
    have "?a \<notin> set (timers q)" using late that by fastforce
    with inv show "overlays (q\<lparr>clock := max (clock q) u\<rparr>) = [\<lparr>oid = k, oclasses = cs @ [''active'']\<rparr>]"
      by auto
  qed
qed

lemma close_overlay_overlays:
  "overlays (close_overlay_v1 k p) = filter (\<lambda>v. oid v \<noteq> k) (overlays p)"
  "overlays (close_overlay_v2 k p) = filter (\<lambda>v. oid v \<noteq> k) (overlays p)"
proof -
  have "filter (\<lambda>v. oid v \<noteq> k) xs = xs" if "k \<notin> oid ` set xs" for xs :: "overlay list"
    using that by (induction xs) auto
  then show "overlays (close_overlay_v1 k p) = filter (\<lambda>v. oid v \<noteq> k) (overlays p)"
    and "overlays (close_overlay_v2 k p) = filter (\<lambda>v. oid v \<noteq> k) (overlays p)"
    by (simp_all add: close_overlay_v1_def close_overlay_v2_def)
qed

lemma shows_overlayI:
  assumes "form_fields p = map (\<lambda>f. f\<lparr>fstate := finit f\<rparr>) before"
    and ov: "overlays p = [\<lparr>oid = k, oclasses = [''form-success-overlay'']\<rparr>]"
    and bt: "btimers p = []"
    and tm: "\<lparr>tid = j, due = clock p + 10, cb = OverlayActive k\<rparr> \<in> set (timers p)"
    and only: "\<forall>tm \<in> set (timers p). cb tm = OverlayActive k \<longrightarrow> clock p + 10 \<le> due tm"
    and close: "\<And>q. overlays (close k q) = filter (\<lambda>v. oid v \<noteq> k) (overlays q)"
  shows "shows_overlay close before p"
proof -
  have fresh: "''active'' \<notin> set [''form-success-overlay'']" by simp
  note appears = overlay_appears [OF ov fresh bt tm only]
  have before: "overlays (run_until u p) = overlays p" if "u < clock p + 10" for u
    using that by (rule appears(1))
  have after: "overlays (run_until u p) =
      [\<lparr>oid = k, oclasses = [''form-success-overlay'', ''active'']\<rparr>]" if "clock p + 10 \<le> u" for u
    using appears(2) [OF that] by simp
  have "overlays (close k (run_until u p)) = []" for u
  proof (cases "u < clock p + 10")
    case True
    then show ?thesis by (simp add: close before ov)
  next
    case False
    then show ?thesis by (simp add: close after)
  qed
  with assms(1) ov before after show ?thesis
    unfolding shows_overlay_def by blast
qed

lemma success_v1:
  assumes s: "sending_v1 p q" and ov: "overlays q = []"
    and fr: "fresh p < fresh q"
    and sub: "set (timers q) \<subseteq> insert (abort_timer p) (set (timers p))"
    and ids: "overlay_ids_fresh p"
  shows "shows_overlay close_overlay_v1 (form_fields q)
           (fetch_settled_v1 (fresh p) (Fulfilled True) q)"
proof -
  let ?S = "fetch_settled_v1 (fresh p) (Fulfilled True) q"
  let ?old = "filter (\<lambda>t. tid t \<noteq> Suc (fresh p)) (timers q)"
  let ?new = "\<lparr>tid = Suc (fresh q), due = clock q + 10, cb = OverlayActive (fresh q)\<rparr>"
  have req: "find (\<lambda>r. rid r = fresh p \<and> stage r = AwaitFetch) (requests q) = Some (request_v1 p)"
    using s by (simp add: sending_v1_def request_v1_def)
  have S: "overlays ?S = [\<lparr>oid = fresh q, oclasses = [''form-success-overlay'']\<rparr>]"
    "timers ?S = ?old @ [?new]" "clock ?S = clock q"
    "form_fields ?S = map (\<lambda>f. f\<lparr>fstate := finit f\<rparr>) (form_fields q)"
    using ov by (simp_all add: fetch_settled_v1_def req request_v1_def clearTimeout_def
        showSuccessMessage_v1_def setTimeout_def form_reset_def Let_def)
  have old: "\<not> touches_button (cb tm) \<and> cb tm \<noteq> OverlayActive (fresh q)" if "tm \<in> set ?old" for tm
  proof -
    from that have mem: "tm \<in> set (timers q)" and k: "tid tm \<noteq> Suc (fresh p)" by auto
    have "\<not> touches_button (cb tm)"
    proof
      assume "touches_button (cb tm)"
      with mem have "tm \<in> set (btimers q)" by (simp add: btimers_mem)
      with s have "tm = abort_timer p" by (simp add: sending_v1_def)
      with k show False by (simp add: abort_timer_def)
    qed
    moreover from this mem sub have "tm \<in> set (timers p)" by (auto simp: abort_timer_def)
    with ids fr have "cb tm \<noteq> OverlayActive (fresh q)" by (auto simp: overlay_ids_fresh_def)
    ultimately show ?thesis by simp
  qed
  have bt: "btimers ?S = []"
    using old by (auto simp: btimers_def S(2) filter_empty_conv)
  have only: "\<forall>tm \<in> set (timers ?S). cb tm = OverlayActive (fresh q) \<longrightarrow> clock ?S + 10 \<le> due tm"
    using old by (auto simp: S(2,3))
  show ?thesis
  proof (rule shows_overlayI [where k = "fresh q" and j = "Suc (fresh q)"])
    show "\<lparr>tid = Suc (fresh q), due = clock ?S + 10, cb = OverlayActive (fresh q)\<rparr> \<in> set (timers ?S)"
      by (simp add: S(2,3))
  qed (fact S(4) S(1) bt only close_overlay_overlays(1))+
qed

lemma success_v2:
  assumes s: "sending_v2 p q" and ov: "overlays q = []"
    and fr: "fresh p < fresh q"
    and sub: "set (timers q) \<subseteq> set (timers p)"
    and ids: "overlay_ids_fresh p"
  shows "shows_overlay close_overlay_v2 (form_fields q)
           (fetch_settled_v2 (fresh p) (Fulfilled True) q)"
proof -
  let ?S = "fetch_settled_v2 (fresh p) (Fulfilled True) q"
  let ?new = "\<lparr>tid = Suc (fresh q), due = clock q + 10, cb = OverlayActive (fresh q)\<rparr>"
  have req: "find (\<lambda>r. rid r = fresh p \<and> stage r = AwaitFetch) (requests q) = Some (request_v2 p)"
    using s by (simp add: sending_v2_def request_v2_def)
  have S: "overlays ?S = [\<lparr>oid = fresh q, oclasses = [''form-success-overlay'']\<rparr>]"
    "timers ?S = timers q @ [?new]" "clock ?S = clock q"
    "form_fields ?S = map (\<lambda>f. f\<lparr>fstate := finit f\<rparr>) (form_fields q)"
    using ov by (simp_all add: fetch_settled_v2_def req request_v2_def
        showSuccessMessage_v2_def setTimeout_def form_reset_def Let_def)
  have old: "\<not> touches_button (cb tm) \<and> cb tm \<noteq> OverlayActive (fresh q)" if "tm \<in> set (timers q)" for tm
  proof -
    have "\<not> touches_button (cb tm)"
      using that s btimers_mem [of tm q] by (auto simp: sending_v2_def)
    moreover from that sub have "tm \<in> set (timers p)" by auto
    with ids fr have "cb tm \<noteq> OverlayActive (fresh q)" by (auto simp: overlay_ids_fresh_def)
    ultimately show ?thesis by simp
  qed
  have bt: "btimers ?S = []"
    using old by (auto simp: btimers_def S(2) filter_empty_conv)
  have only: "\<forall>tm \<in> set (timers ?S). cb tm = OverlayActive (fresh q) \<longrightarrow> clock ?S + 10 \<le> due tm"
    using old by (auto simp: S(2,3))
  show ?thesis
  proof (rule shows_overlayI [where k = "fresh q" and j = "Suc (fresh q)"])
    show "\<lparr>tid = Suc (fresh q), due = clock ?S + 10, cb = OverlayActive (fresh q)\<rparr> \<in> set (timers ?S)"
      by (simp add: S(2,3))
  qed (fact S(4) S(1) bt only close_overlay_overlays(2))+
qed

lemma button_waits:
  assumes "btimers q = [abort_timer p] \<and> t < clock p + 10000 \<or> btimers q = []"
  shows "\<forall>tm \<in> set (timers q). touches_button (cb tm) \<longrightarrow> t < due tm"
proof (intro ballI impI)
  fix tm assume "tm \<in> set (timers q)" "touches_button (cb tm)"
  then have "tm \<in> set (btimers q)" by (simp add: btimers_mem)
  with assms show "t < due tm" by (auto simp: abort_timer_def)
qed

lemma network_failure_label:
  assumes "sending_v1 p q"
  shows "btn_label (fetch_settled_v1 (fresh p) (Rejected e) q) =
           (if fst e = ''AbortError'' then ''Timeout - Try Again'' else ''Error - Try Again'')"
  using assms
  by (simp add: fetch_settled_v1_def sending_v1_def request_v1_def catch_v1_def
        clearTimeout_def setTimeout_def Let_def)

lemma success_v1_button:
  assumes "sending_v1 p q"
  shows "btn_label (fetch_settled_v1 (fresh p) (Fulfilled True) q) = btn_label p"
    and "\<not> btn_disabled (fetch_settled_v1 (fresh p) (Fulfilled True) q)"
    and "btn_opacity (fetch_settled_v1 (fresh p) (Fulfilled True) q) = ''1''"
  using assms
  by (simp_all add: fetch_settled_v1_def sending_v1_def request_v1_def clearTimeout_def
        showSuccessMessage_v1_def setTimeout_def form_reset_def Let_def)

lemma success_v2_button:
  assumes "sending_v2 p q"
  shows "btn_label (fetch_settled_v2 (fresh p) (Fulfilled True) q) = ''Sending...''"
    and "btn_disabled (fetch_settled_v2 (fresh p) (Fulfilled True) q)"
    and "btimers (fetch_settled_v2 (fresh p) (Fulfilled True) q) = []"
    and "overlays (fetch_settled_v2 (fresh p) (Fulfilled True) q) \<noteq> []"
  using assms
  by (simp_all add: fetch_settled_v2_def sending_v2_def request_v2_def btimers_def
        showSuccessMessage_v2_def setTimeout_def form_reset_def Let_def)

lemma demo_idle: "idle demo" "present demo SubmitBtn"
  by (simp_all add: demo_def idle_def)

section \<open>Selectors and the menu\<close>

lemma cl_force_active: "cl_contains c (cl_force c b xs) \<longleftrightarrow> b"
  by (auto simp: cl_contains_def cl_force_def cl_add_def cl_remove_def)

lemma update_items:
  "items (keep (updateProtocolSelection v s p)) =
     map (\<lambda>it. it\<lparr>item_classes := cl_force ''active'' (item_value it = Some v) (item_classes it)\<rparr>)
       (items p)"
  and update_fields:
  "form_fields (keep (updateProtocolSelection v s p)) = assign_first ''program'' v (form_fields p)"
  by (simp_all add: updateProtocolSelection_def set_program_def keep_def setTimeout_def Let_def)

lemma active_items_update:
  "length (active_items (keep (updateProtocolSelection v s p))) =
     count_list (map item_value (items p)) (Some v)"
proof -
  have "length (filter (\<lambda>it. cl_contains ''active'' (item_classes it))
          (map (\<lambda>it. it\<lparr>item_classes := cl_force ''active'' (item_value it = Some v) (item_classes it)\<rparr>) xs)) =
        count_list (map item_value xs) (Some v)" for xs :: "item list"
    by (induction xs) (simp_all add: cl_force_active)
  then show ?thesis by (simp add: active_items_def update_items)
qed

lemma marks_update:
  assumes "it \<in> set (items (keep (updateProtocolSelection v s p)))"
  shows "cl_contains ''active'' (item_classes it) \<longleftrightarrow> item_value it = Some v"
  using assms by (auto simp: update_items cl_force_active)

lemma toggle_click_v2_lock:
  "body_overflow (toggle_click_v2 p) = ''hidden'' \<longleftrightarrow> menu_open (toggle_click_v2 p)"
  by (auto simp: toggle_click_v2_def menu_open_def cl_toggle_def cl_contains_def cl_add_def
        cl_remove_def Let_def)

section \<open>Abort timers and the requests they belong to\<close>

lemma wf_aborts_in_flight: "wf p \<Longrightarrow> aborts_in_flight p"
  unfolding wf_def aborts_in_flight_def by blast

lemma wf_same:
  assumes "wf p" and "timers q = timers p" "requests q = requests p" "fresh q = fresh p"
  shows "wf q"
  using assms by (simp add: wf_def)

lemma wf_fewer_timers:
  assumes "wf p" and "set ts \<subseteq> set (timers p)"
  shows "wf (p\<lparr>timers := ts\<rparr>)"
  using assms unfolding wf_def by (simp add: subset_iff)

lemma wf_setTimeout:
  assumes "wf p" and "\<forall>i. f \<noteq> Abort i"
  shows "wf (snd (setTimeout f ms p))"
  using assms unfolding wf_def setTimeout_def by (auto simp: less_Suc_eq)

lemma wf_fresh:
  assumes "wf p"
  shows "wf (p\<lparr>fresh := Suc (fresh p)\<rparr>)"
  using assms unfolding wf_def by (auto simp: less_Suc_eq)

lemma distinct_rid_remove1:
  assumes "distinct (map rid rs)" and "r \<in> set rs"
  shows "distinct (map rid (remove1 r rs))" and "rid r \<notin> rid ` set (remove1 r rs)"
proof -
  from assms(1) have d: "distinct rs" by (rule distinct_map [THEN iffD1, THEN conjunct1])
  from assms(1) have inj: "inj_on rid (set rs)" by (simp add: distinct_map)
  have sub: "set (remove1 r rs) \<subseteq> set rs" by (rule set_remove1_subset)
  show "distinct (map rid (remove1 r rs))"
    using d inj sub by (auto simp: distinct_map intro: inj_on_subset)
  show "rid r \<notin> rid ` set (remove1 r rs)"
  proof
    assume "rid r \<in> rid ` set (remove1 r rs)"
    then obtain r' where r': "r' \<in> set (remove1 r rs)" "rid r' = rid r" by auto
    with sub have "r' \<in> set rs" by auto
    with inj assms(2) r'(2) have "r' = r" by (auto dest: inj_onD)
    with r'(1) d show False by simp
  qed
qed

text \<open>A handler resumes: its request leaves the list and its abort timer is cleared.\<close>

lemma wf_resume:
  assumes "wf p" and r: "r \<in> set (requests p)"
  shows "wf (clearTimeout (timeout_id r) (p\<lparr>requests := remove1 r (requests p)\<rparr>))"
    (is "wf ?q")
proof -
  have tq: "set (timers ?q) \<subseteq> set (timers p)"
    and keepk: "\<And>tm k. tm \<in> set (timers ?q) \<Longrightarrow> timeout_id r = Some k \<Longrightarrow> tid tm \<noteq> k"
    and rq: "requests ?q = remove1 r (requests p)" and fq: "fresh ?q = fresh p"
    by (auto simp: clearTimeout_def split: option.splits)
  from assms(1) have d: "distinct (map rid (requests p))" by (simp add: wf_def)
  have sub: "set (remove1 r (requests p)) \<subseteq> set (requests p)" by (rule set_remove1_subset)
  have "\<exists>r' \<in> set (requests ?q). rid r' = i \<and> stage r' = AwaitFetch \<and> timeout_id r' = Some (tid tm)"
    if tm: "tm \<in> set (timers ?q)" and a: "cb tm = Abort i" for tm i
  proof -
    from tm tq have "tm \<in> set (timers p)" by auto
    with assms(1) a obtain r' where r': "r' \<in> set (requests p)" "rid r' = i"
      "stage r' = AwaitFetch" "timeout_id r' = Some (tid tm)"
      unfolding wf_def by blast
    have "r' \<noteq> r"
    proof
      assume "r' = r"
      with r'(4) keepk [OF tm] show False by simp
    qed
    with r'(1) have "r' \<in> set (remove1 r (requests p))" by simp
    with r' rq show ?thesis by auto
  qed
  moreover have "\<forall>tm \<in> set (timers ?q). tid tm < fresh ?q"
    using assms(1) tq unfolding wf_def fq by blast
  moreover have "\<forall>r' \<in> set (requests ?q). rid r' < fresh ?q"
    using assms(1) sub unfolding wf_def fq rq by blast
  moreover have "distinct (map rid (requests ?q))"
    unfolding rq using d r by (rule distinct_rid_remove1(1))
  ultimately show ?thesis unfolding wf_def by blast
qed

lemma wf_catch_v1:
  assumes "wf p" and "r \<in> set (requests p)"
  shows "wf (catch_v1 e r (p\<lparr>requests := remove1 r (requests p)\<rparr>))"
proof -
  let ?q = "clearTimeout (timeout_id r) (p\<lparr>requests := remove1 r (requests p)\<rparr>)"
  let ?q4 = "?q\<lparr>console := console ?q @ [e],
     btn_label := (if fst e = ''AbortError'' then ''Timeout - Try Again'' else ''Error - Try Again''),
     btn_opacity := ''1''\<rparr>"
  have "wf ?q" using assms by (rule wf_resume)
  then have "wf ?q4" by (rule wf_same) simp_all
  then have "wf (snd (setTimeout (RestoreBtn (original_text r)) 3000 ?q4))"
    by (rule wf_setTimeout) simp
  then show ?thesis by (simp add: catch_v1_def Let_def)
qed

lemma find_mem: "find P xs = Some x \<Longrightarrow> x \<in> set xs \<and> P x"
  by (induction xs) (auto split: if_splits)

lemma wf_fire:
  assumes "wf p" and tm: "tm \<in> set (timers p)"
  shows "wf (fire tm p)"
proof -
  let ?q = "p\<lparr>clock := max (clock p) (due tm), timers := remove1 tm (timers p)\<rparr>"
  have "wf (p\<lparr>timers := remove1 tm (timers p)\<rparr>)"
    using assms(1) by (rule wf_fewer_timers) (rule set_remove1_subset)
  then have q: "wf ?q" by (rule wf_same) simp_all
  show ?thesis
  proof (cases "cb tm")
    case (Abort i)
    show ?thesis
    proof (cases "find (\<lambda>r. rid r = i) (requests ?q)")
      case None
      with Abort q show ?thesis by (simp add: fire_def)
    next
      case (Some r)
      then have "r \<in> set (requests ?q)" by (auto dest: find_mem)
      from wf_catch_v1 [OF q this] Abort Some show ?thesis by (simp add: fire_def)
    qed
  next
    case (RestoreBtn t)
    with wf_same [OF q] show ?thesis by (simp add: fire_def)
  next
    case (OverlayActive k)
    with wf_same [OF q] show ?thesis by (simp add: fire_def)
  next
    case (ClassRemove n c)
    with wf_same [OF q] show ?thesis by (simp add: fire_def)
  next
    case (RevealActive i)
    with wf_same [OF q] show ?thesis by (simp add: fire_def)
  qed
qed

lemma wf_run_until:
  assumes "wf p"
  shows "wf (run_until t p)"
proof (rule run_until_rule [where I = wf and Q = wf])
  show "wf p" by fact
next
  fix q tm assume "wf q" "earliest (timers q) = Some tm"
  then show "wf (fire tm q)" by (auto intro: wf_fire dest: earliest_mem)
next
  fix q assume "wf q"
  then show "wf (q\<lparr>clock := max (clock q) t\<rparr>)" by (rule wf_same) simp_all
qed

lemma wf_submit_v1:
  assumes "wf p"
  shows "wf (submit_v1 p)"
proof (cases "present p SubmitBtn")
  case False
  with assms show ?thesis by (simp add: submit_v1_def)
next
  case True
  have "fresh p \<notin> rid ` set (requests p)"
  proof
    assume "fresh p \<in> rid ` set (requests p)"
    then obtain r where "r \<in> set (requests p)" "rid r = fresh p" by auto
    with assms show False unfolding wf_def by fastforce
  qed
  with assms True show ?thesis
    unfolding wf_def submit_v1_def setTimeout_def Let_def
    by (auto simp: less_Suc_eq)
qed

lemma wf_showSuccessMessage_v1:
  assumes "wf p"
  shows "wf (showSuccessMessage_v1 p)"
proof -
  let ?p3 = "p\<lparr>fresh := Suc (fresh p), form_position := ''relative'',
     overlays := overlays p @ [\<lparr>oid = fresh p, oclasses = [''form-success-overlay'']\<rparr>]\<rparr>"
  have "wf (p\<lparr>fresh := Suc (fresh p)\<rparr>)" using assms by (rule wf_fresh)
  then have "wf ?p3" by (rule wf_same) simp_all
  then have "wf (snd (setTimeout (OverlayActive (fresh p)) 10 ?p3))"
    by (rule wf_setTimeout) simp
  then show ?thesis by (simp add: showSuccessMessage_v1_def Let_def)
qed

lemma wf_fetch_settled_v1:
  assumes "wf p"
  shows "wf (fetch_settled_v1 i s p)"
proof (cases "find (\<lambda>r. rid r = i \<and> stage r = AwaitFetch) (requests p)")
  case None
  with assms show ?thesis by (simp add: fetch_settled_v1_def)
next
  case (Some r)
  then have r: "r \<in> set (requests p)" by (auto dest: find_mem)
  let ?p1 = "clearTimeout (timeout_id r) (p\<lparr>requests := remove1 r (requests p)\<rparr>)"
  have p1: "wf ?p1" using assms r by (rule wf_resume)
  show ?thesis
  proof (cases s)
    case (Rejected e)
    with Some wf_catch_v1 [OF assms r] show ?thesis by (simp add: fetch_settled_v1_def)
  next
    case (Fulfilled ok)
    show ?thesis
    proof (cases ok)
      case True
      have "wf (showSuccessMessage_v1 ?p1)" using p1 by (rule wf_showSuccessMessage_v1)
      then have "wf ((form_reset (showSuccessMessage_v1 ?p1))
          \<lparr>btn_label := original_text r, btn_disabled := False, btn_opacity := ''1''\<rparr>)"
        by (rule wf_same) (simp_all add: form_reset_def)
      with Some Fulfilled True show ?thesis by (simp add: fetch_settled_v1_def Let_def)
    next
      case False
      have d: "distinct (map rid (requests p))" using assms by (simp add: wf_def)
      have rq: "requests ?p1 = remove1 r (requests p)" "fresh ?p1 = fresh p"
        by (simp_all add: clearTimeout_def split: option.splits)
      have "rid r \<notin> rid ` set (requests ?p1)"
        unfolding rq using d r by (rule distinct_rid_remove1(2))
      moreover have "rid r < fresh ?p1" using assms r unfolding rq wf_def by blast
      ultimately have "wf (?p1\<lparr>requests := requests ?p1 @ [r\<lparr>stage := AwaitJson\<rparr>]\<rparr>)"
        using p1 unfolding wf_def by auto
      with Some Fulfilled False show ?thesis by (simp add: fetch_settled_v1_def Let_def)
    qed
  qed
qed

lemma wf_json_settled_v1:
  assumes "wf p"
  shows "wf (json_settled_v1 i b p)"
proof (cases "find (\<lambda>r. rid r = i \<and> stage r = AwaitJson) (requests p)")
  case None
  with assms show ?thesis by (simp add: json_settled_v1_def)
next
  case (Some r)
  then have r: "r \<in> set (requests p)" by (auto dest: find_mem)
  from wf_catch_v1 [OF assms r] Some show ?thesis
    by (cases b) (simp_all add: json_settled_v1_def)
qed

lemma wf_card_click_v1:
  assumes "wf p"
  shows "wf (keep (card_click_v1 c p))"
proof -
  have two: "wf (snd (setTimeout (ClassRemove n2 c2) m2
      ((snd (setTimeout (ClassRemove n1 c1) m1 q))\<lparr>class_list := f\<rparr>)))"
    if "wf q" for q n1 c1 m1 n2 c2 m2 f
  proof -
    have "wf (snd (setTimeout (ClassRemove n1 c1) m1 q))" using that by (rule wf_setTimeout) simp
    then have "wf ((snd (setTimeout (ClassRemove n1 c1) m1 q))\<lparr>class_list := f\<rparr>)"
      by (rule wf_same) simp_all
    then show ?thesis by (rule wf_setTimeout) simp
  qed
  have upd: "wf ((set_program v p)\<lparr>scrolled_to := y, class_list := f\<rparr>)" for v y f
    using assms by (rule wf_same) (simp_all add: set_program_def)
  have upd1: "wf (set_program v p)" for v
    using assms by (rule wf_same) (simp_all add: set_program_def)
  have upd2: "wf ((set_program v p)\<lparr>scrolled_to := y\<rparr>)" for v y
    using assms by (rule wf_same) (simp_all add: set_program_def)
  show ?thesis
    using assms two [OF upd] upd1 upd2
    by (simp add: card_click_v1_def keep_def Let_def split: option.splits)
qed

lemma wf_anchor_click_v1:
  assumes "wf p"
  shows "wf (keep (anchor_click_v1 h p))"
proof -
  have "timers (keep (anchor_click_v1 h p)) = timers p"
    "requests (keep (anchor_click_v1 h p)) = requests p"
    "fresh (keep (anchor_click_v1 h p)) = fresh p"
    by (simp_all add: anchor_click_v1_def querySelector_def keep_def Let_def
          split: option.splits sum.splits)
  with assms show ?thesis by (rule wf_same)
qed

lemma wf_toggle_click_v1:
  assumes "wf p"
  shows "wf (toggle_click_v1 p)"
  using assms by (rule wf_same) (simp_all add: toggle_click_v1_def Let_def split: prod.splits)

lemma intersect_v1_frame:
  "timers (intersect_v1 es p) = timers p \<and> requests (intersect_v1 es p) = requests p \<and>
   fresh (intersect_v1 es p) = fresh p"
  unfolding intersect_v1_def
  by (induction es arbitrary: p) (simp_all add: activate_def Let_def)

lemma wf_notify_v1:
  assumes "wf p"
  shows "wf (notify_v1 es p)"
  using assms by (rule wf_same) (simp_all add: notify_v1_def intersect_v1_frame)

lemma wf_step_v1:
  assumes "wf p"
  shows "wf (step_v1 e p)"
proof (cases e)
  case (Tick t)
  with assms show ?thesis by (simp add: wf_run_until)
next
  case Submit
  with assms show ?thesis by (simp add: wf_submit_v1)
next
  case (FetchSettled i s)
  with assms show ?thesis by (simp add: wf_fetch_settled_v1)
next
  case (JsonSettled i b)
  with assms show ?thesis by (simp add: wf_json_settled_v1)
next
  case (CloseOverlay k)
  have "wf (close_overlay_v1 k p)"
    using assms by (rule wf_same) (simp_all add: close_overlay_v1_def)
  with CloseOverlay show ?thesis by simp
next
  case (ClickCard i)
  with assms show ?thesis by (simp add: wf_card_click_v1)
next
  case (ClickItem i)
  with assms show ?thesis by simp
next
  case (ClickAnchor h)
  with assms show ?thesis by (simp add: wf_anchor_click_v1)
next
  case ClickToggle
  with assms show ?thesis by (simp add: wf_toggle_click_v1)
next
  case (Notify es)
  with assms show ?thesis by (simp add: wf_notify_v1)
qed

lemma wf_fold_step_v1: "wf p \<Longrightarrow> wf (fold step_v1 es p)"
  by (induction es arbitrary: p) (simp_all add: wf_step_v1)

lemma settled_not_pending:
  assumes "wf p"
  shows "\<forall>r \<in> set (requests (fetch_settled_v1 i s p)). \<not> (rid r = i \<and> stage r = AwaitFetch)"
proof (cases "find (\<lambda>r. rid r = i \<and> stage r = AwaitFetch) (requests p)")
  case None
  then have "\<forall>r \<in> set (requests p). \<not> (rid r = i \<and> stage r = AwaitFetch)"
    by (simp add: find_None_iff)
  with None show ?thesis by (simp add: fetch_settled_v1_def)
next
  case (Some r)
  then have r: "r \<in> set (requests p)" "rid r = i" by (auto dest: find_mem)
  have d: "distinct (map rid (requests p))" using assms by (simp add: wf_def)
  have gone: "\<forall>r' \<in> set (remove1 r (requests p)). rid r' \<noteq> i"
    using distinct_rid_remove1(2) [OF d r(1)] r(2) by (metis imageI)
  show ?thesis
  proof (cases s)
    case (Rejected e)
    with Some gone show ?thesis
      by (simp add: fetch_settled_v1_def catch_v1_def clearTimeout_def setTimeout_def Let_def
            split: option.splits)
  next
    case (Fulfilled ok)
    with Some gone show ?thesis
      by (simp add: fetch_settled_v1_def clearTimeout_def showSuccessMessage_v1_def
            setTimeout_def form_reset_def Let_def split: option.splits)
  qed
qed

lemma loaded_v1_demo:
  "timers (loaded_v1 demo) = []" "requests (loaded_v1 demo) = []"
  "map cb (timers (step_v1 Submit (loaded_v1 demo))) = [Abort 0]"
  by (simp_all add: demo_def loaded_v1_def initProtocolSelection_v1_def programSelect_def initContactForm_v1_def
        initMobileMenu_def initSmoothScroll_def initScrollReveal_def can_submit_def
        submit_v1_def setTimeout_def Let_def)

section \<open>Scroll reveal: one activation per element\<close>




























section \<open>Selection, reset and reveal\<close>

lemma find_assign_first:
  "find (\<lambda>f. fid f = i) (assign_first i v fs) = map_option (assign v) (find (\<lambda>f. fid f = i) fs)"
  by (induction fs) (simp_all add: assign_def split: option.splits)

lemma programSelect_set_program:
  "programSelect (set_program v p) = map_option (assign v) (programSelect p)"
  by (simp add: programSelect_def set_program_def find_assign_first)

lemma program_value_set_program:
  "program_value (set_program v p) = (if accepts p v then v else [])"
  by (simp add: program_value_def programSelect_set_program accepts_def assign_def value_of_def
        split: option.splits)

lemma accepts_set_program: "accepts (set_program v p) w \<longleftrightarrow> accepts p w"
  by (simp add: accepts_def programSelect_set_program assign_def split: option.splits)

lemma update_selection:
  "programSelect (keep (updateProtocolSelection v s p)) = programSelect (set_program v p)"
  "cards (keep (updateProtocolSelection v s p)) = cards p"
  by (simp_all add: programSelect_def update_fields set_program_def)
     (simp add: updateProtocolSelection_def set_program_def keep_def setTimeout_def Let_def)

lemma program_value_update:
  "program_value (keep (updateProtocolSelection v s p)) = (if accepts p v then v else [])"
  using program_value_set_program [of v p]
  by (simp add: program_value_def update_selection)

lemma accepts_update: "accepts (keep (updateProtocolSelection v s p)) w \<longleftrightarrow> accepts p w"
  using accepts_set_program [of v p w] by (simp add: accepts_def update_selection)

lemma selectors_match_update:
  assumes "accepts p v"
  shows "selectors_match (keep (updateProtocolSelection v s p))"
  using assms marks_update [of _ v s p]
  by (auto simp: selectors_match_def list_all_iff active_items_def program_value_update)

lemma values_accepted_update:
  assumes "values_accepted p"
  shows "values_accepted (keep (updateProtocolSelection v s p))"
  using assms
  by (simp add: values_accepted_def accepts_update update_selection update_items list_all_iff)

lemma card_click_v1_fields:
  assumes "card_value c = Some v" and "v \<noteq> []"
  shows "form_fields (keep (card_click_v1 c p)) = form_fields (set_program v p)"
    and "items (keep (card_click_v1 c p)) = items p"
  using assms
  by (simp_all add: card_click_v1_def set_program_def keep_def setTimeout_def Let_def)

lemma selection_cong:
  assumes "selection q = selection p"
  shows "selectors_match q \<longleftrightarrow> selectors_match p" and "values_accepted q \<longleftrightarrow> values_accepted p"
  using assms
  by (simp_all add: selection_def selectors_match_def values_accepted_def accepts_def
        programSelect_def program_value_def active_items_def)

lemma selection_fire: "selection (fire tm p) = selection p"
  by (cases "cb tm")
     (simp_all add: fire_def selection_def catch_v1_def setTimeout_def clearTimeout_def Let_def
        split: option.splits)

lemma selection_run_until: "selection (run_until t p) = selection p"
proof (rule run_until_rule [where I = "\<lambda>q. selection q = selection p"
      and Q = "\<lambda>q. selection q = selection p"])
  show "selection p = selection p" by simp
next
  fix q tm assume "selection q = selection p"
  then show "selection (fire tm q) = selection p" by (simp add: selection_fire)
next
  fix q assume "selection q = selection p"
  then show "selection (q\<lparr>clock := max (clock q) t\<rparr>) = selection p"
    by (simp add: selection_def)
qed

lemma selection_fold:
  assumes "\<And>x q. selection (f x q) = selection q"
  shows "selection (fold f xs p) = selection p"
  using assms by (induction xs arbitrary: p) simp_all

lemma selection_notify_v2: "selection (notify_v2 b p) = selection p"
  unfolding notify_v2_def intersect_v2_def Let_def
  by (rule selection_fold) (simp add: selection_def setTimeout_def split: prod.splits)

lemma selection_fetch_settled_v2:
  assumes "\<not> success (FetchSettled i s)"
  shows "selection (fetch_settled_v2 i s p) = selection p"
proof (cases s)
  case (Fulfilled ok)
  with assms have "\<not> ok" by simp
  with Fulfilled show ?thesis
    by (simp add: selection_def fetch_settled_v2_def catch_v2_def setTimeout_def Let_def
          split: option.splits)
next
  case (Rejected err)
  then show ?thesis
    by (simp add: selection_def fetch_settled_v2_def catch_v2_def setTimeout_def Let_def
          split: option.splits)
qed

lemma selection_others:
  "selection (keep (submit_v2 p)) = selection p"
  "selection (close_overlay_v2 k p) = selection p"
  "selection (keep (anchor_click_v2 h p)) = selection p"
  "selection (toggle_click_v2 p) = selection p"
  by (simp_all add: selection_def submit_v2_def
        close_overlay_v2_def anchor_click_v2_def toggle_click_v2_def querySelector_def keep_def
        Let_def split: option.splits sum.splits prod.splits)

lemma click_keeps_match:
  assumes "values_accepted p" and "selectors_match p"
  shows "i < length (cards p) \<Longrightarrow>
           values_accepted (keep (card_click_v2 (cards p ! i) p)) \<and>
           selectors_match (keep (card_click_v2 (cards p ! i) p))"
    and "i < length (items p) \<Longrightarrow>
           values_accepted (keep (item_click_v2 (items p ! i) p)) \<and>
           selectors_match (keep (item_click_v2 (items p ! i) p))"
proof -
  assume i: "i < length (cards p)"
  show "values_accepted (keep (card_click_v2 (cards p ! i) p)) \<and>
        selectors_match (keep (card_click_v2 (cards p ! i) p))"
  proof (cases "card_value (cards p ! i)")
    case None
    with assms show ?thesis by (simp add: card_click_v2_def keep_def)
  next
    case (Some v)
    show ?thesis
    proof (cases "v = []")
      case True
      with Some assms show ?thesis by (simp add: card_click_v2_def keep_def)
    next
      case False
      from assms(1) i have "\<forall>v \<in> set_option (card_value (cards p ! i)). v \<noteq> [] \<longrightarrow> accepts p v"
        by (simp add: values_accepted_def list_all_length)
      with Some False have "accepts p v" by simp
      with Some False assms(1) show ?thesis
        by (simp add: card_click_v2_def selectors_match_update values_accepted_update)
    qed
  qed
next
  assume i: "i < length (items p)"
  show "values_accepted (keep (item_click_v2 (items p ! i) p)) \<and>
        selectors_match (keep (item_click_v2 (items p ! i) p))"
  proof (cases "item_value (items p ! i)")
    case None
    with assms show ?thesis by (simp add: item_click_v2_def keep_def)
  next
    case (Some v)
    show ?thesis
    proof (cases "v = []")
      case True
      with Some assms show ?thesis by (simp add: item_click_v2_def keep_def)
    next
      case False
      from assms(1) i have "\<forall>v \<in> set_option (item_value (items p ! i)). v \<noteq> [] \<longrightarrow> accepts p v"
        by (simp add: values_accepted_def list_all_length)
      with Some False have "accepts p v" by simp
      with Some False assms(1) show ?thesis
        by (simp add: item_click_v2_def selectors_match_update values_accepted_update)
    qed
  qed
qed

lemma step_v2_keeps_match:
  assumes "values_accepted p \<and> selectors_match p" and "\<not> success e"
  shows "values_accepted (step_v2 e p) \<and> selectors_match (step_v2 e p)"
proof (cases e)
  case (Tick t)
  with assms(1) selection_cong [OF selection_run_until [of t p]] show ?thesis by simp
next
  case Submit
  with assms(1) selection_cong [OF selection_others(1) [of p]] show ?thesis by simp
next
  case (FetchSettled i s)
  with assms(2) have "selection (fetch_settled_v2 i s p) = selection p"
    by (intro selection_fetch_settled_v2) simp
  from selection_cong [OF this] assms(1) FetchSettled show ?thesis by simp
next
  case (JsonSettled i b)
  with assms(1) show ?thesis by simp
next
  case (CloseOverlay k)
  with assms(1) selection_cong [OF selection_others(2) [of k p]] show ?thesis by simp
next
  case (ClickCard i)
  with assms(1) click_keeps_match(1) [of p i] show ?thesis by simp
next
  case (ClickItem i)
  with assms(1) click_keeps_match(2) [of p i] show ?thesis by simp
next
  case (ClickAnchor h)
  with assms(1) selection_cong [OF selection_others(3) [of h p]] show ?thesis by simp
next
  case ClickToggle
  with assms(1) selection_cong [OF selection_others(4) [of p]] show ?thesis by simp
next
  case (Notify b)
  with assms(1) selection_cong [OF selection_notify_v2 [of b p]] show ?thesis by simp
qed

lemma fold_step_v2_keeps_match:
  assumes "values_accepted p \<and> selectors_match p" and "\<not> list_ex success es"
  shows "values_accepted (fold step_v2 es p) \<and> selectors_match (fold step_v2 es p)"
  using assms
proof (induction es arbitrary: p)
  case Nil
  then show ?case by simp
next
  case (Cons e es)
  from Cons.prems have "values_accepted (step_v2 e p) \<and> selectors_match (step_v2 e p)"
    by (intro step_v2_keeps_match) simp_all
  from Cons.IH [OF this] Cons.prems(2) show ?case by simp
qed












section \<open>The claims\<close>

text \<open>
  C1. On an ok response the handler should show the overlay, reset the form and
  restore the button. The second variant does not restore the button: on the demo
  page, whose button reads \<open>Send Inquiry\<close> and is enabled, the overlay is shown but
  the button still reads \<open>Sending...\<close> and is still disabled. (The first variant
  restores it: lemma \<open>success_v1_button\<close>.)
\<close>

theorem success_v2_leaves_button_sending:
  "btn_label demo = ''Send Inquiry'' \<and> \<not> btn_disabled demo \<and>
   (\<exists>q. submit_v2 demo = Inr q \<and>
      btn_label (fetch_settled_v2 0 (Fulfilled True) (run_until 700 q)) = ''Sending...'' \<and>
      btn_disabled (fetch_settled_v2 0 (Fulfilled True) (run_until 700 q)) \<and>
      overlays (fetch_settled_v2 0 (Fulfilled True) (run_until 700 q)) \<noteq> [])"
proof -
  from submit_v2_sending [OF demo_idle] obtain q
    where q: "submit_v2 demo = Inr q" "sending_v2 demo q" by blast
  have "sending_v2 demo (run_until 700 q)" using q(2) by (rule sending_v2_waits)
  from success_v2_button [OF this] q(1) show ?thesis
    by (auto simp: demo_def)
qed

text \<open>
  C2. A submission that fails (the fetch rejects, the response is not ok and its body
  has been read, or in the first variant the 10 s timer aborts the request) leaves the
  button disabled with an error label; the button stays that way for 3000 ms and is
  then enabled again with the label it had before the submission. Both variants, from
  a page with a submit button on which no submission is under way.
\<close>

theorem failure_reverts_after_three_seconds:
  assumes "idle p" and "present p SubmitBtn" and "t < clock p + 10000"
  shows "reverts_after_3s (btn_label p)
           (fetch_settled_v1 (fresh p) (Rejected e) (run_until t (submit_v1 p))) \<and>
         reverts_after_3s (btn_label p)
           (json_settled_v1 (fresh p) b
              (run_until t' (fetch_settled_v1 (fresh p) (Fulfilled False) (run_until t (submit_v1 p))))) \<and>
         reverts_after_3s (btn_label p) (run_until (clock p + 10000) (submit_v1 p)) \<and>
         (\<exists>q. submit_v2 p = Inr q \<and>
            reverts_after_3s (btn_label p)
              (fetch_settled_v2 (fresh p) (Rejected e) (run_until s q)) \<and>
            reverts_after_3s (btn_label p)
              (fetch_settled_v2 (fresh p) (Fulfilled False) (run_until s q)))"
proof (intro conjI)
  note sent = submit_v1_sending [OF assms(1,2)]
  have waiting: "sending_v1 p (run_until t (submit_v1 p))"
    using sent(1) assms(3) by (rule sending_v1_waits)
  show "reverts_after_3s (btn_label p)
          (fetch_settled_v1 (fresh p) (Rejected e) (run_until t (submit_v1 p)))"
    using waiting by (intro failed_reverts network_failure_v1)
  show "reverts_after_3s (btn_label p)
          (json_settled_v1 (fresh p) b
             (run_until t' (fetch_settled_v1 (fresh p) (Fulfilled False) (run_until t (submit_v1 p)))))"
    using waiting by (intro failed_reverts rejection_v1 reading_v1_waits not_ok_v1)
  have "timed_out p (run_until (clock p + 10000) (submit_v1 p)) \<and>
        clock (run_until (clock p + 10000) (submit_v1 p)) = clock p + 10000"
    using sent(1) by (rule timeout_v1) (simp_all add: sent(2))
  then show "reverts_after_3s (btn_label p) (run_until (clock p + 10000) (submit_v1 p))"
    by (intro failed_reverts timed_out_failed) simp_all
  from submit_v2_sending [OF assms(1,2)] obtain q
    where q: "submit_v2 p = Inr q" "sending_v2 p q" by blast
  have "sending_v2 p (run_until s q)" using q(2) by (rule sending_v2_waits)
  then have "reverts_after_3s (btn_label p) (fetch_settled_v2 (fresh p) (Rejected e) (run_until s q))"
    and "reverts_after_3s (btn_label p) (fetch_settled_v2 (fresh p) (Fulfilled False) (run_until s q))"
    by (auto intro!: failed_reverts failure_v2)
  with q(1) show "\<exists>q. submit_v2 p = Inr q \<and>
      reverts_after_3s (btn_label p) (fetch_settled_v2 (fresh p) (Rejected e) (run_until s q)) \<and>
      reverts_after_3s (btn_label p) (fetch_settled_v2 (fresh p) (Fulfilled False) (run_until s q))"
    by blast
qed

theorem failure_reverts_after_three_seconds_witness:
  "idle demo \<and> present demo SubmitBtn \<and> 500 < clock demo + 10000 \<and>
   reverts_after_3s ''Send Inquiry''
     (fetch_settled_v1 0 (Rejected (''TypeError'', ''Failed to fetch'')) (run_until 500 (submit_v1 demo))) \<and>
   reverts_after_3s ''Send Inquiry''
     (json_settled_v1 0 (JsonObject (Some ''Email invalid''))
        (run_until 800 (fetch_settled_v1 0 (Fulfilled False) (run_until 500 (submit_v1 demo))))) \<and>
   reverts_after_3s ''Send Inquiry'' (run_until 10000 (submit_v1 demo)) \<and>
   (\<exists>q. submit_v2 demo = Inr q \<and>
      reverts_after_3s ''Send Inquiry''
        (fetch_settled_v2 0 (Rejected (''TypeError'', ''Failed to fetch'')) (run_until 700 q)) \<and>
      reverts_after_3s ''Send Inquiry'' (fetch_settled_v2 0 (Fulfilled False) (run_until 700 q)))"
proof -
  have h: "idle demo" "present demo SubmitBtn" "500 < clock demo + 10000"
    by (simp_all add: demo_def idle_def)
  have v: "btn_label demo = ''Send Inquiry''" "fresh demo = 0" "clock demo + 10000 = 10000"
    by (simp_all add: demo_def)
  from failure_reverts_after_three_seconds [OF h,
      of "(''TypeError'', ''Failed to fetch'')" "JsonObject (Some ''Email invalid'')" 800 700]
  show ?thesis using h unfolding v by simp
qed

text \<open>
  C3. The button should be disabled from the submit event to the outcome and enabled
  again afterwards. In the second variant it is never enabled again after a
  successful submission, however long one waits: no timer is left that would do it.
  (While the request is in flight the button is disabled in both variants: lemmas
  \<open>sending_v1_waits\<close> and \<open>sending_v2_waits\<close>.)
\<close>

theorem success_v2_never_enables_button:
  "\<exists>q. submit_v2 demo = Inr q \<and>
     (\<forall>u. btn_disabled (run_until u (fetch_settled_v2 0 (Fulfilled True) (run_until 700 q))))"
proof -
  from submit_v2_sending [OF demo_idle] obtain q
    where q: "submit_v2 demo = Inr q" "sending_v2 demo q" by blast
  have w: "sending_v2 demo (run_until 700 q)" using q(2) by (rule sending_v2_waits)
  let ?S = "fetch_settled_v2 (fresh demo) (Fulfilled True) (run_until 700 q)"
  have "btn_disabled (run_until u ?S)" for u
  proof -
    have "\<forall>tm \<in> set (timers ?S). touches_button (cb tm) \<longrightarrow> u < due tm"
      using success_v2_button(3) [OF w] by (intro button_waits) simp
    from run_until_waits [OF this] success_v2_button(2) [OF w] show ?thesis
      by (simp add: same_button_def)
  qed
  moreover have "fresh demo = 0" by (simp add: demo_def)
  ultimately show ?thesis using q(1) by auto
qed

text \<open>
  C4. First variant. Until 10000 ms have passed since the submission the request stays
  in flight. If the fetch has not settled by then, the abort timer fires: the request
  is gone, the catch block has logged an \<open>AbortError\<close>, and the button reads
  \<open>Timeout - Try Again\<close>, whereas a rejection by any other error makes it read
  \<open>Error - Try Again\<close>.
\<close>

theorem timeout_aborts_and_shows_timeout_label:
  assumes "idle p" and "present p SubmitBtn"
  shows "(\<forall>t. t < clock p + 10000 \<longrightarrow>
            map rid (requests (run_until t (submit_v1 p))) = [fresh p]) \<and>
         (\<forall>u. clock p + 10000 \<le> u \<and> u < clock p + 13000 \<longrightarrow>
            requests (run_until u (submit_v1 p)) = [] \<and>
            btn_label (run_until u (submit_v1 p)) = ''Timeout - Try Again'' \<and>
            fst (last (console (run_until u (submit_v1 p)))) = ''AbortError'') \<and>
         (\<forall>t e. t < clock p + 10000 \<and> fst e \<noteq> ''AbortError'' \<longrightarrow>
            btn_label (fetch_settled_v1 (fresh p) (Rejected e) (run_until t (submit_v1 p))) =
              ''Error - Try Again'')"
proof (intro conjI allI impI)
  note sent = submit_v1_sending [OF assms]
  fix t assume "t < clock p + 10000"
  with sent(1) have "sending_v1 p (run_until t (submit_v1 p))" by (rule sending_v1_waits)
  then show "map rid (requests (run_until t (submit_v1 p))) = [fresh p]"
    by (simp add: sending_v1_def request_v1_def)
next
  note sent = submit_v1_sending [OF assms]
  fix u assume u: "clock p + 10000 \<le> u \<and> u < clock p + 13000"
  have "timed_out p (run_until u (submit_v1 p)) \<and> clock (run_until u (submit_v1 p)) = u"
    using sent(1) u by (intro timeout_v1) (simp_all add: sent(2))
  then show "requests (run_until u (submit_v1 p)) = []"
    and "btn_label (run_until u (submit_v1 p)) = ''Timeout - Try Again''"
    and "fst (last (console (run_until u (submit_v1 p)))) = ''AbortError''"
    by (simp_all add: timed_out_def)
next
  note sent = submit_v1_sending [OF assms]
  fix t and e :: "string \<times> string"
  assume a: "t < clock p + 10000 \<and> fst e \<noteq> ''AbortError''"
  with sent(1) have "sending_v1 p (run_until t (submit_v1 p))" by (intro sending_v1_waits) simp_all
  from network_failure_label [OF this, of e] a
  show "btn_label (fetch_settled_v1 (fresh p) (Rejected e) (run_until t (submit_v1 p))) =
          ''Error - Try Again''" by simp
qed

theorem timeout_aborts_and_shows_timeout_label_witness:
  "idle demo \<and> present demo SubmitBtn \<and>
   map rid (requests (run_until 9999 (submit_v1 demo))) = [0] \<and>
   requests (run_until 10000 (submit_v1 demo)) = [] \<and>
   btn_label (run_until 10000 (submit_v1 demo)) = ''Timeout - Try Again'' \<and>
   fst (last (console (run_until 10000 (submit_v1 demo)))) = ''AbortError'' \<and>
   btn_label (fetch_settled_v1 0 (Rejected (''TypeError'', ''Failed to fetch''))
                (run_until 9999 (submit_v1 demo))) = ''Error - Try Again''"
proof -
  have h: "idle demo" "present demo SubmitBtn" by (simp_all add: demo_def idle_def)
  have v: "fresh demo = 0" "clock demo = 0" by (simp_all add: demo_def)
  from timeout_aborts_and_shows_timeout_label [OF h] h show ?thesis
    unfolding v by simp
qed

text \<open>
  C5. A handler should do nothing when an element it needs is absent. Some handlers
  dereference an absent element and throw instead:
  the first variant's card click when the contact section is absent, and the second
  variant's anchor click and card click when the main header is absent.
\<close>

theorem missing_element_throws:
  "OnCardClick \<in> set (listeners (loaded_v1 demo_no_contact)) \<and>
   isl (card_click_v1 (cards (loaded_v1 demo_no_contact) ! 0) (loaded_v1 demo_no_contact)) \<and>
   OnAnchorClick \<in> set (listeners (loaded_v2 demo_no_header)) \<and>
   isl (anchor_click_v2 ''#contact'' (loaded_v2 demo_no_header)) \<and>
   OnCardClick \<in> set (listeners (loaded_v2 demo_no_header)) \<and>
   isl (card_click_v2 (cards (loaded_v2 demo_no_header) ! 0) (loaded_v2 demo_no_header))"
  by (simp add: demo_no_contact_def demo_no_header_def demo_def loaded_v1_def loaded_v2_def
        initProtocolSelection_v1_def programSelect_def initProtocolSelection_v2_def initContactForm_v1_def
        initContactForm_v2_def initMobileMenu_def initSmoothScroll_def initScrollReveal_def
        card_click_v1_def card_click_v2_def anchor_click_v2_def updateProtocolSelection_def
        set_program_def querySelector_def Let_def)

text \<open>
  C6, as stated, fails in three ways. On a page of the second variant whose only list
  selector carries \<open>starter\<close>, activating the card that carries \<open>elite\<close> sets the field
  to \<open>elite\<close> and leaves no list selector active. A card whose value \<open>vip\<close> is no
  option of the \<open>#program\<close> select leaves the field reading the empty string, in both
  variants. And once the selector \<open>elite\<close> has been activated and the form submitted
  with success, \<open>reset()\<close> puts the field back to its load-time value, the empty
  string, while the selector \<open>elite\<close> is still marked active.
\<close>

theorem selector_mismatch_counterexample:
  "card_value (cards demo_unmatched ! 0) = Some ''elite'' \<and>
   program_value (step_v2 (ClickCard 0) (loaded_v2 demo_unmatched)) = ''elite'' \<and>
   active_items (step_v2 (ClickCard 0) (loaded_v2 demo_unmatched)) = [] \<and>
   card_value (cards demo_vip ! 0) = Some ''vip'' \<and>
   program_value (step_v2 (ClickCard 0) (loaded_v2 demo_vip)) = [] \<and>
   program_value (step_v1 (ClickCard 0) (loaded_v1 demo_vip)) = [] \<and>
   item_value (items demo ! 1) = Some ''elite'' \<and>
   program_value (step_v2 (ClickItem 1) (loaded_v2 demo)) = ''elite'' \<and>
   program_value (fold step_v2 [ClickItem 1, Submit, FetchSettled 0 (Fulfilled True)]
     (loaded_v2 demo)) = [] \<and>
   map item_value (active_items (fold step_v2 [ClickItem 1, Submit, FetchSettled 0 (Fulfilled True)]
     (loaded_v2 demo))) = [Some ''elite'']"
  by (simp add: demo_unmatched_def demo_vip_def demo_def loaded_v2_def loaded_v1_def
        initProtocolSelection_v1_def initContactForm_v1_def
        initProtocolSelection_v2_def
        initContactForm_v2_def initMobileMenu_def initSmoothScroll_def initScrollReveal_def
        card_click_v1_def card_click_v2_def item_click_v2_def updateProtocolSelection_def keep_def
        setTimeout_def Let_def
        can_submit_def submit_v2_def fetch_settled_v2_def form_reset_def form_data_def
        showSuccessMessage_v2_def program_value_def programSelect_def set_program_def assign_def
        value_of_def
        active_items_def cl_contains_def cl_force_def cl_add_def cl_remove_def)

text \<open>
  C6, amended. An activation with a non-empty value \<open>v\<close> sets the form field to \<open>v\<close>
  when the field takes \<open>v\<close> (it is there, and \<open>v\<close> is one of its options when it is a
  select); otherwise the field reads the empty string afterwards. In the second
  variant a list selector is active afterwards exactly when its \<open>data-value\<close> is \<open>v\<close>,
  so the number of active selectors is the number of selectors that carry \<open>v\<close>: one
  when exactly one does, none when none does; and when the field takes \<open>v\<close>, every
  active selector carries the field's value. The first variant has no list selectors
  and leaves them alone. An activation with a missing or empty \<open>data-value\<close> changes
  nothing. On a page of the second variant where the field takes every value that a
  card or a selector carries, the active selectors match the field after any
  sequence of events without a successful submission, if they matched before it.
\<close>

theorem activation_marks_matching_selectors:
  assumes "v \<noteq> []"
  shows "(card_value c = Some v \<longrightarrow>
            program_value (keep (card_click_v2 c p)) = (if accepts p v then v else []) \<and>
            program_value (keep (card_click_v1 c p)) = (if accepts p v then v else []) \<and>
            (\<forall>it \<in> set (items (keep (card_click_v2 c p))).
               cl_contains ''active'' (item_classes it) \<longleftrightarrow> item_value it = Some v) \<and>
            length (active_items (keep (card_click_v2 c p))) =
              count_list (map item_value (items p)) (Some v) \<and>
            (accepts p v \<longrightarrow> selectors_match (keep (card_click_v2 c p))) \<and>
            items (keep (card_click_v1 c p)) = items p) \<and>
         (item_value i = Some v \<longrightarrow>
            program_value (keep (item_click_v2 i p)) = (if accepts p v then v else []) \<and>
            (\<forall>it \<in> set (items (keep (item_click_v2 i p))).
               cl_contains ''active'' (item_classes it) \<longleftrightarrow> item_value it = Some v) \<and>
            length (active_items (keep (item_click_v2 i p))) =
              count_list (map item_value (items p)) (Some v) \<and>
            (accepts p v \<longrightarrow> selectors_match (keep (item_click_v2 i p)))) \<and>
         (card_value c' = None \<or> card_value c' = Some [] \<longrightarrow>
            card_click_v1 c' p = Inr p \<and> card_click_v2 c' p = Inr p) \<and>
         (item_value i' = None \<or> item_value i' = Some [] \<longrightarrow> item_click_v2 i' p = Inr p) \<and>
         (values_accepted q \<and> selectors_match q \<and> \<not> list_ex success es \<longrightarrow>
            selectors_match (fold step_v2 es q))"
proof (intro conjI impI)
  assume c: "card_value c = Some v"
  then have eq: "card_click_v2 c p = updateProtocolSelection v True p"
    using assms by (simp add: card_click_v2_def)
  show "program_value (keep (card_click_v2 c p)) = (if accepts p v then v else [])"
    unfolding eq by (rule program_value_update)
  show "program_value (keep (card_click_v1 c p)) = (if accepts p v then v else [])"
    using program_value_set_program [of v p] card_click_v1_fields(1) [OF c assms, of p]
    by (simp add: program_value_def programSelect_def)
  show "\<forall>it \<in> set (items (keep (card_click_v2 c p))).
          cl_contains ''active'' (item_classes it) \<longleftrightarrow> item_value it = Some v"
    unfolding eq using marks_update by blast
  show "length (active_items (keep (card_click_v2 c p))) =
          count_list (map item_value (items p)) (Some v)"
    by (simp add: eq active_items_update)
  show "items (keep (card_click_v1 c p)) = items p"
    using c assms by (rule card_click_v1_fields(2))
  assume "accepts p v"
  then show "selectors_match (keep (card_click_v2 c p))"
    unfolding eq by (rule selectors_match_update)
next
  assume i: "item_value i = Some v"
  then have eq: "item_click_v2 i p = updateProtocolSelection v False p"
    using assms by (simp add: item_click_v2_def)
  show "program_value (keep (item_click_v2 i p)) = (if accepts p v then v else [])"
    unfolding eq by (rule program_value_update)
  show "\<forall>it \<in> set (items (keep (item_click_v2 i p))).
          cl_contains ''active'' (item_classes it) \<longleftrightarrow> item_value it = Some v"
    unfolding eq using marks_update by blast
  show "length (active_items (keep (item_click_v2 i p))) =
          count_list (map item_value (items p)) (Some v)"
    by (simp add: eq active_items_update)
  assume "accepts p v"
  then show "selectors_match (keep (item_click_v2 i p))"
    unfolding eq by (rule selectors_match_update)
next
  assume "card_value c' = None \<or> card_value c' = Some []"
  then show "card_click_v1 c' p = Inr p" and "card_click_v2 c' p = Inr p"
    by (auto simp: card_click_v1_def card_click_v2_def)
next
  assume "item_value i' = None \<or> item_value i' = Some []"
  then show "item_click_v2 i' p = Inr p" by (auto simp: item_click_v2_def)
next
  assume "values_accepted q \<and> selectors_match q \<and> \<not> list_ex success es"
  then show "selectors_match (fold step_v2 es q)"
    using fold_step_v2_keeps_match [of q es] by simp
qed

text \<open>
  The amended C6 on the demo page, for the value \<open>elite\<close>, and along a visit with two
  activations and a failed submission.
\<close>

theorem activation_marks_matching_selectors_witness:
  "''elite'' \<noteq> [] \<and> card_value (cards demo ! 0) = Some ''elite'' \<and>
   item_value (items demo ! 1) = Some ''elite'' \<and> card_value (cards demo ! 1) = None \<and>
   item_value (items demo_unlabelled ! 0) = None \<and> accepts demo ''elite'' \<and>
   program_value demo = [] \<and>
   program_value (keep (card_click_v2 (cards demo ! 0) demo)) = ''elite'' \<and>
   program_value (keep (card_click_v1 (cards demo ! 0) demo)) = ''elite'' \<and>
   program_value (keep (item_click_v2 (items demo ! 1) demo)) = ''elite'' \<and>
   length (active_items (keep (card_click_v2 (cards demo ! 0) demo))) = 1 \<and>
   length (active_items (keep (item_click_v2 (items demo ! 1) demo))) = 1 \<and>
   selectors_match (keep (card_click_v2 (cards demo ! 0) demo)) \<and>
   selectors_match (keep (item_click_v2 (items demo ! 1) demo)) \<and>
   card_click_v2 (cards demo ! 1) demo = Inr demo \<and>
   item_click_v2 (items demo_unlabelled ! 0) demo = Inr demo \<and>
   values_accepted (loaded_v2 demo) \<and> selectors_match (loaded_v2 demo) \<and>
   \<not> list_ex success demo_session \<and>
   selectors_match (fold step_v2 demo_session (loaded_v2 demo))"
proof -
  have h: "''elite'' \<noteq> []" by simp
  have c: "card_value (cards demo ! 0) = Some ''elite''"
    "item_value (items demo ! 1) = Some ''elite''" "card_value (cards demo ! 1) = None"
    "item_value (items demo_unlabelled ! 0) = None"
    "count_list (map item_value (items demo)) (Some ''elite'') = 1"
    "accepts demo ''elite''" "program_value demo = []"
    by (simp_all add: demo_def demo_unlabelled_def accepts_def programSelect_def
          program_value_def value_of_def)
  have q: "values_accepted (loaded_v2 demo)" "selectors_match (loaded_v2 demo)"
    "\<not> list_ex success demo_session"
    by (simp_all add: demo_def demo_session_def loaded_v2_def initProtocolSelection_v2_def
          initContactForm_v2_def initMobileMenu_def initSmoothScroll_def initScrollReveal_def
          values_accepted_def selectors_match_def accepts_def programSelect_def
          active_items_def cl_contains_def)
  from activation_marks_matching_selectors [OF h, where c = "cards demo ! 0" and p = demo
      and i = "items demo ! 1" and c' = "cards demo ! 1" and i' = "items demo_unlabelled ! 0"
      and q = "loaded_v2 demo" and es = demo_session] c q
  show ?thesis by simp
qed

text \<open>
  C7, as stated, fails: a field that the page presets to \<open>Bob\<close> and the user changed
  to \<open>Alice\<close> reads \<open>Bob\<close> after a successful submission; it is not cleared. Both
  variants.
\<close>

theorem preset_field_not_cleared_counterexample:
  "map value_of (form_fields demo_preset) = [''Alice''] \<and>
   map value_of (form_fields
     (fetch_settled_v1 0 (Fulfilled True) (run_until 500 (submit_v1 demo_preset)))) = [''Bob''] \<and>
   map value_of (form_fields
     (fetch_settled_v2 0 (Fulfilled True) (run_until 500 (keep (submit_v2 demo_preset))))) = [''Bob'']"
  by (simp add: demo_preset_def demo_def submit_v1_def submit_v2_def keep_def setTimeout_def
        run_until.simps fetch_settled_v1_def fetch_settled_v2_def clearTimeout_def
        showSuccessMessage_v1_def showSuccessMessage_v2_def form_reset_def value_of_def Let_def)

text \<open>
  C7, amended. After one successful submission on a page whose form holds no overlay
  yet, every control of the form, the \<open>#program\<close> select among them, is in the state it
  had when the page was loaded (so it is empty exactly when it was empty on load),
  and the form holds exactly one success overlay. The overlay carries no \<open>active\<close>
  class when it is inserted nor during the next 10 ms, and carries it from then on;
  its close action, whenever it is triggered, leaves the form without overlay. Both
  variants.
\<close>

theorem success_resets_form_and_shows_overlay:
  assumes "idle p" and "present p SubmitBtn" and "overlays p = []" and "overlay_ids_fresh p"
    and "t < clock p + 10000"
  shows "shows_overlay close_overlay_v1 (form_fields p)
           (fetch_settled_v1 (fresh p) (Fulfilled True) (run_until t (submit_v1 p))) \<and>
         (\<exists>q. submit_v2 p = Inr q \<and>
            shows_overlay close_overlay_v2 (form_fields p)
              (fetch_settled_v2 (fresh p) (Fulfilled True) (run_until s q)))"
proof
  let ?q = "submit_v1 p"
  note sent = submit_v1_sending [OF assms(1,2)]
  have later: "\<forall>tm \<in> set (timers ?q). touches_button (cb tm) \<longrightarrow> t < due tm"
    using sent(1) assms(5) by (intro button_waits) (simp add: sending_v1_def)
  have quiet: "quiet_since ?q (run_until t ?q)" using later by (rule run_until_quiet)
  have q: "fresh ?q = Suc (Suc (fresh p))" "timers ?q = timers p @ [abort_timer p]"
    using assms(2) by (simp_all add: submit_v1_def setTimeout_def Let_def abort_timer_def)
  have same: "form_fields (run_until t ?q) = form_fields p"
    using quiet sent(4) by (simp add: quiet_since_def)
  have "shows_overlay close_overlay_v1 (form_fields (run_until t ?q))
          (fetch_settled_v1 (fresh p) (Fulfilled True) (run_until t ?q))"
  proof (rule success_v1)
    show "sending_v1 p (run_until t ?q)" using sent(1) assms(5) by (rule sending_v1_waits)
    show "overlays (run_until t ?q) = []"
      using quiet sent(3) assms(3) by (simp add: quiet_since_def)
    show "fresh p < fresh (run_until t ?q)" using quiet q(1) by (simp add: quiet_since_def)
    show "set (timers (run_until t ?q)) \<subseteq> insert (abort_timer p) (set (timers p))"
      using quiet q(2) by (auto simp: quiet_since_def)
    show "overlay_ids_fresh p" by fact
  qed
  then show "shows_overlay close_overlay_v1 (form_fields p)
          (fetch_settled_v1 (fresh p) (Fulfilled True) (run_until t ?q))"
    by (simp only: same)
next
  from submit_v2_sending [OF assms(1,2)] obtain q
    where q: "submit_v2 p = Inr q" "sending_v2 p q" "overlays q = overlays p"
      "form_fields q = form_fields p" by blast
  from q(1) assms(2) have q': "fresh q = Suc (fresh p)" "timers q = timers p"
    by (auto simp: submit_v2_def Let_def)
  have later: "\<forall>tm \<in> set (timers q). touches_button (cb tm) \<longrightarrow> s < due tm"
    using q(2) by (intro button_waits) (simp add: sending_v2_def)
  have quiet: "quiet_since q (run_until s q)" using later by (rule run_until_quiet)
  have same: "form_fields (run_until s q) = form_fields p"
    using quiet q(4) by (simp add: quiet_since_def)
  have "shows_overlay close_overlay_v2 (form_fields (run_until s q))
          (fetch_settled_v2 (fresh p) (Fulfilled True) (run_until s q))"
  proof (rule success_v2)
    show "sending_v2 p (run_until s q)" using q(2) by (rule sending_v2_waits)
    show "overlays (run_until s q) = []"
      using quiet q(3) assms(3) by (simp add: quiet_since_def)
    show "fresh p < fresh (run_until s q)" using quiet q'(1) by (simp add: quiet_since_def)
    show "set (timers (run_until s q)) \<subseteq> set (timers p)"
      using quiet q'(2) by (auto simp: quiet_since_def)
    show "overlay_ids_fresh p" by fact
  qed
  then have "shows_overlay close_overlay_v2 (form_fields p)
          (fetch_settled_v2 (fresh p) (Fulfilled True) (run_until s q))"
    by (simp only: same)
  with q(1) show "\<exists>q. submit_v2 p = Inr q \<and>
      shows_overlay close_overlay_v2 (form_fields p)
        (fetch_settled_v2 (fresh p) (Fulfilled True) (run_until s q))"
    by blast
qed

text \<open>
  The amended C7 on the demo page: the three controls read \<open>Ada\<close>, her address and the
  placeholder before and are all empty after.
\<close>

theorem success_resets_form_and_shows_overlay_witness:
  "idle demo \<and> present demo SubmitBtn \<and> overlays demo = [] \<and> overlay_ids_fresh demo \<and>
   500 < clock demo + 10000 \<and>
   map value_of (form_fields demo) = [''Ada'', ''ada@example.org'', []] \<and>
   map value_of (form_fields
     (fetch_settled_v1 0 (Fulfilled True) (run_until 500 (submit_v1 demo)))) = [[], [], []] \<and>
   shows_overlay close_overlay_v1 (form_fields demo)
     (fetch_settled_v1 0 (Fulfilled True) (run_until 500 (submit_v1 demo))) \<and>
   (\<exists>q. submit_v2 demo = Inr q \<and>
      shows_overlay close_overlay_v2 (form_fields demo)
        (fetch_settled_v2 0 (Fulfilled True) (run_until 700 q)))"
proof -
  have h: "idle demo" "present demo SubmitBtn" "overlays demo = []" "overlay_ids_fresh demo"
    "500 < clock demo + 10000"
    by (simp_all add: demo_def idle_def overlay_ids_fresh_def)
  have v: "fresh demo = 0" by (simp add: demo_def)
  have f: "map value_of (form_fields demo) = [''Ada'', ''ada@example.org'', []]"
    "map value_of (map (\<lambda>f. f\<lparr>fstate := finit f\<rparr>) (form_fields demo)) = [[], [], []]"
    by (simp_all add: demo_def value_of_def)
  from success_resets_form_and_shows_overlay [OF h, of 700]
  have s: "shows_overlay close_overlay_v1 (form_fields demo)
       (fetch_settled_v1 0 (Fulfilled True) (run_until 500 (submit_v1 demo)))"
    and "\<exists>q. submit_v2 demo = Inr q \<and>
      shows_overlay close_overlay_v2 (form_fields demo)
        (fetch_settled_v2 0 (Fulfilled True) (run_until 700 q))"
    unfolding v by simp_all
  moreover from s f(2) have "map value_of (form_fields
     (fetch_settled_v1 0 (Fulfilled True) (run_until 500 (submit_v1 demo)))) = [[], [], []]"
    by (simp add: shows_overlay_def)
  ultimately show ?thesis using h f(1) by blast
qed




text \<open>
  C9. Second variant. After a click on the menu toggle the body's \<open>overflow\<close> is
  \<open>hidden\<close> exactly when the nav carries \<open>active\<close>. When an anchor click closes the
  open menu it also clears the scroll lock. An anchor click on a page with the menu
  toggle (without which no handler ever engages the lock) never leaves the body
  locked with the menu closed, whether it returns or throws.
\<close>

theorem scroll_lock_follows_menu:
  "(body_overflow (toggle_click_v2 p) = ''hidden'' \<longleftrightarrow> menu_open (toggle_click_v2 p)) \<and>
   (h \<noteq> ''#'' \<and> h \<noteq> [] \<and> target_top p h \<noteq> None \<and> present p MainHeader \<and>
    present p MenuToggle \<and> present p MainNav \<and> menu_open p \<longrightarrow>
      (\<exists>q. anchor_click_v2 h p = Inr q \<and> \<not> menu_open q \<and> body_overflow q = [] \<and>
         aria_expanded q = Some ''false'')) \<and>
   (present p MenuToggle \<and> (body_overflow p = ''hidden'' \<longrightarrow> menu_open p) \<longrightarrow>
      (body_overflow (keep (anchor_click_v2 h p)) = ''hidden'' \<longrightarrow>
         menu_open (keep (anchor_click_v2 h p))))"
proof (intro conjI impI)
  show "body_overflow (toggle_click_v2 p) = ''hidden'' \<longleftrightarrow> menu_open (toggle_click_v2 p)"
    by (rule toggle_click_v2_lock)
next
  assume "h \<noteq> ''#'' \<and> h \<noteq> [] \<and> target_top p h \<noteq> None \<and> present p MainHeader \<and>
    present p MenuToggle \<and> present p MainNav \<and> menu_open p"
  then show "\<exists>q. anchor_click_v2 h p = Inr q \<and> \<not> menu_open q \<and> body_overflow q = [] \<and>
     aria_expanded q = Some ''false''"
    by (auto simp: anchor_click_v2_def querySelector_def menu_open_def cl_contains_def
        cl_remove_def Let_def)
next
  assume "present p MenuToggle \<and> (body_overflow p = ''hidden'' \<longrightarrow> menu_open p)"
    and "body_overflow (keep (anchor_click_v2 h p)) = ''hidden''"
  then show "menu_open (keep (anchor_click_v2 h p))"
    by (auto simp: anchor_click_v2_def querySelector_def menu_open_def keep_def cl_contains_def
        cl_remove_def Let_def split: option.splits if_splits)
qed

theorem scroll_lock_follows_menu_witness:
  "body_overflow demo_menu_open = ''hidden'' \<and> menu_open demo_menu_open \<and>
   target_top demo_menu_open ''#contact'' \<noteq> None \<and> present demo_menu_open MainHeader \<and>
   present demo_menu_open MenuToggle \<and> present demo_menu_open MainNav \<and>
   (\<exists>q. anchor_click_v2 ''#contact'' demo_menu_open = Inr q \<and> \<not> menu_open q \<and>
      body_overflow q = [] \<and> aria_expanded q = Some ''false'') \<and>
   (body_overflow (keep (anchor_click_v2 ''#contact'' demo_menu_open)) = ''hidden'') =
     menu_open (keep (anchor_click_v2 ''#contact'' demo_menu_open)) \<and>
   \<not> menu_open (toggle_click_v2 demo_menu_open) \<and>
   body_overflow (toggle_click_v2 demo_menu_open) = []"
proof -
  have h: "body_overflow demo_menu_open = ''hidden''" "menu_open demo_menu_open"
    "target_top demo_menu_open ''#contact'' \<noteq> None" "present demo_menu_open MainHeader"
    "present demo_menu_open MenuToggle" "present demo_menu_open MainNav"
    by (simp_all add: demo_menu_open_def demo_def toggle_click_v2_def menu_open_def cl_toggle_def
          cl_contains_def cl_add_def cl_force_def Let_def)
  have t: "\<not> menu_open (toggle_click_v2 demo_menu_open)"
    by (simp add: demo_menu_open_def demo_def toggle_click_v2_def menu_open_def cl_toggle_def
          cl_contains_def cl_add_def cl_remove_def cl_force_def Let_def)
  from scroll_lock_follows_menu [of demo_menu_open "''#contact''"] h
  have "\<exists>q. anchor_click_v2 ''#contact'' demo_menu_open = Inr q \<and> \<not> menu_open q \<and>
      body_overflow q = [] \<and> aria_expanded q = Some ''false''" by simp
  moreover from this have "(body_overflow (keep (anchor_click_v2 ''#contact'' demo_menu_open)) = ''hidden'') =
     menu_open (keep (anchor_click_v2 ''#contact'' demo_menu_open))"
    by (auto simp: keep_def)
  moreover from scroll_lock_follows_menu [of demo_menu_open "''#contact''"] t
  have "body_overflow (toggle_click_v2 demo_menu_open) = []"
    by (auto simp: toggle_click_v2_def cl_toggle_def Let_def split: if_splits prod.splits)
  ultimately show ?thesis using h t by blast
qed

text \<open>
  C10. First variant. Starting from a page with nothing pending, after any sequence
  of events every pending abort timer belongs to a request that still awaits its
  response; and once the fetch of request \<open>i\<close> has settled, by a response or by a
  rejection, no abort timer for \<open>i\<close> is left. So an abort fires only while the
  request is in flight.
\<close>

theorem abort_timer_only_while_fetch_pending:
  assumes "timers p = []" and "requests p = []"
  shows "aborts_in_flight (fold step_v1 es p) \<and>
         (\<forall>tm \<in> set (timers (fetch_settled_v1 i s (fold step_v1 es p))). cb tm \<noteq> Abort i)"
proof
  have "wf p" using assms by (simp add: wf_def)
  then have reach: "wf (fold step_v1 es p)" by (rule wf_fold_step_v1)
  then show "aborts_in_flight (fold step_v1 es p)" by (rule wf_aborts_in_flight)
  let ?q = "fetch_settled_v1 i s (fold step_v1 es p)"
  have "wf ?q" using reach by (rule wf_fetch_settled_v1)
  then have "aborts_in_flight ?q" by (rule wf_aborts_in_flight)
  with settled_not_pending [OF reach, of i s]
  show "\<forall>tm \<in> set (timers ?q). cb tm \<noteq> Abort i"
    unfolding aborts_in_flight_def by blast
qed

theorem abort_timer_only_while_fetch_pending_witness:
  "timers (loaded_v1 demo) = [] \<and> requests (loaded_v1 demo) = [] \<and>
   map cb (timers (step_v1 Submit (loaded_v1 demo))) = [Abort 0] \<and>
   aborts_in_flight (fold step_v1 [Submit, Tick 500] (loaded_v1 demo)) \<and>
   Abort 0 \<notin> set (map cb (timers (fetch_settled_v1 0 (Fulfilled False)
       (fold step_v1 [Submit, Tick 500] (loaded_v1 demo)))))"
  using abort_timer_only_while_fetch_pending [OF loaded_v1_demo(1,2), of "[Submit, Tick 500]" 0
      "Fulfilled False"] loaded_v1_demo
  by auto

end
